theory Spec2Isabelle
  imports Main "HOL-Library.Signed_Division"
begin

section \<open>Errors, contexts and providers (internal/llm/provider.go)\<close>

text \<open>
  A Go \<open>error\<close> is a value of the datatype \<open>error\<close>: the two errors of package
  \<open>context\<close>, and any other error, identified by its message. A run-time panic is a value
  of its own. A \<open>context.Context\<close> is represented by what \<open>ctx.Err()\<close> returns when it is
  consulted: \<open>None\<close> while the context is live. Go's \<open>int\<close> and \<open>time.Duration\<close> are
  modelled by \<open>int\<close>; the places where the 64-bit range could matter are named where
  they occur. Every method is taken as one step: the mutexes that make it so are not
  modelled, and neither is the logging.
\<close>

datatype error = Canceled | DeadlineExceeded | Failure string

datatype panic = IndexOutOfRange | DivideByZero

type_synonym Context = "error option"

text \<open>The method \<open>Error()\<close> of an error: its message.\<close>

fun error_string :: "error \<Rightarrow> string" where
  "error_string Canceled = ''context canceled''"
| "error_string DeadlineExceeded = ''context deadline exceeded''"
| "error_string (Failure msg) = msg"

text \<open>
  The interface \<open>Provider\<close> is a record of its methods. \<open>Complete\<close> takes the context and
  the request (prompt and options, type \<open>'q\<close>) and returns an error or a completion
  result (type \<open>'r\<close>); what a backend answers is not decided by this repository, so it is
  part of the provider value. \<open>HealthCheck\<close> and \<open>Protocol\<close> play no role below.
\<close>

record ('q, 'r) Provider =
  Name :: string
  Complete :: "Context \<Rightarrow> 'q \<Rightarrow> error + 'r"

text \<open>The struct \<open>CompletionResult\<close>; the latency is in nanoseconds.\<close>

record CompletionResult =
  Content :: string
  Provider' :: string
  Model :: string
  Latency :: int
  TokensIn :: int
  TokensOut :: int

section \<open>The weighted round-robin balancer (type Balancer)\<close>

record ('q, 'r) weightedProvider =
  provider :: "('q, 'r) Provider"
  weight :: int

record ('q, 'r) Balancer =
  providers :: "('q, 'r) weightedProvider list"
  currentWeight :: int
  maxWeight :: int
  gcd' :: int
  lastIndex :: int

text \<open>
  Go's \<open>%\<close> truncates towards zero: it is \<open>smod\<close>. The loop of \<open>gcd\<close> runs while
  \<open>b \<noteq> 0\<close>; it terminates because the absolute value of \<open>b\<close> decreases.
\<close>

function gcd_go :: "int \<Rightarrow> int \<Rightarrow> int" where
  "gcd_go a b = (if b \<noteq> 0 then gcd_go b (a smod b) else a)"
  by pat_completeness auto
termination
proof (relation "measure (\<lambda>(a, b). nat \<bar>b\<bar>)")
  show "wf (measure (\<lambda>(a, b). nat \<bar>b\<bar>))" by simp
next
  fix a b :: int
  assume "b \<noteq> 0"
  then have "\<bar>a smod b\<bar> < \<bar>b\<bar>"
    using smod_int_range [where a = a and b = b] by auto
  then show "((b, a smod b), (a, b)) \<in> measure (\<lambda>(a, b). nat \<bar>b\<bar>)" by simp
qed

declare gcd_go.simps [simp del]

text \<open>A lookup in a Go \<open>map[string]int\<close> yields 0 for a missing key.\<close>

definition lookup_weight :: "(string \<rightharpoonup> int) \<Rightarrow> string \<Rightarrow> int" where
  "lookup_weight weights n = (case weights n of None \<Rightarrow> 0 | Some w \<Rightarrow> w)"

text \<open>The first loop of \<open>NewBalancer\<close>: one entry per provider, the weight defaulted to 1.\<close>

definition wrap_provider ::
  "(string \<rightharpoonup> int) \<Rightarrow> ('q, 'r) Provider \<Rightarrow> ('q, 'r) weightedProvider" where
  "wrap_provider weights p =
     (let w = lookup_weight weights (Name p)
      in \<lparr>provider = p, weight = (if w \<le> 0 then 1 else w)\<rparr>)"

text \<open>
  The second loop of \<open>NewBalancer\<close>, over the entries from index 1 on, carrying
  \<open>(maxWeight, gcd)\<close>.
\<close>

fun scan_weights :: "int \<times> int \<Rightarrow> ('q, 'r) weightedProvider list \<Rightarrow> int \<times> int" where
  "scan_weights (m, g) [] = (m, g)"
| "scan_weights (m, g) (wp # wps) =
     scan_weights (if weight wp > m then weight wp else m, gcd_go g (weight wp)) wps"

definition NewBalancer ::
  "('q, 'r) Provider list \<Rightarrow> (string \<rightharpoonup> int) \<Rightarrow> ('q, 'r) Balancer" where
  "NewBalancer ps weights =
     (let wps = map (wrap_provider weights) ps
      in case wps of
           [] \<Rightarrow> \<lparr>providers = [], currentWeight = 0, maxWeight = 0, gcd' = 0, lastIndex = - 1\<rparr>
         | wp # rest \<Rightarrow>
             (let (m, g) = scan_weights (weight wp, weight wp) rest
              in \<lparr>providers = wps, currentWeight = 0, maxWeight = m, gcd' = g,
                  lastIndex = - 1\<rparr>))"

text \<open>
  One iteration of the loop of \<open>Next\<close> up to its test: the index advances cyclically and,
  when it wraps to 0, the current weight drops by the gcd and is reset to the maximum
  once it is not positive. On a constructed balancer the current weight stays between 0
  and the maximal weight and the gcd is positive, so that no step leaves the range of a
  64-bit integer.
\<close>

definition advance :: "('q, 'r) Balancer \<Rightarrow> ('q, 'r) Balancer" where
  "advance b =
     (let i = (lastIndex b + 1) smod int (length (providers b));
          b1 = b\<lparr>lastIndex := i\<rparr>
      in if i = 0
         then (let b2 = b1\<lparr>currentWeight := currentWeight b1 - gcd' b1\<rparr>
               in if currentWeight b2 \<le> 0 then b2\<lparr>currentWeight := maxWeight b2\<rparr> else b2)
         else b1)"

text \<open>
  The loop \<open>for { ... }\<close> of \<open>Next\<close> has no exit but the \<open>return\<close>: it is a partial
  function, \<open>None\<close> meaning that it runs forever. Indexing the slice outside its range
  and a remainder by zero panic.
\<close>

partial_function (option) Next_loop ::
  "('q, 'r) Balancer \<Rightarrow> (panic + ('q, 'r) Provider \<times> ('q, 'r) Balancer) option" where
  "Next_loop b =
     (if length (providers b) = 0 then Some (Inl DivideByZero)
      else (let b' = advance b
            in if lastIndex b' < 0 \<or> int (length (providers b')) \<le> lastIndex b'
               then Some (Inl IndexOutOfRange)
               else if weight (providers b' ! nat (lastIndex b')) \<ge> currentWeight b'
               then Some (Inr (provider (providers b' ! nat (lastIndex b')), b'))
               else Next_loop b'))"

text \<open>The same loop cut off after a given number of iterations.\<close>

fun Next_loop_fuel ::
  "nat \<Rightarrow> ('q, 'r) Balancer \<Rightarrow> (panic + ('q, 'r) Provider \<times> ('q, 'r) Balancer) option" where
  "Next_loop_fuel 0 b = None"
| "Next_loop_fuel (Suc k) b =
     (if length (providers b) = 0 then Some (Inl DivideByZero)
      else (let b' = advance b
            in if lastIndex b' < 0 \<or> int (length (providers b')) \<le> lastIndex b'
               then Some (Inl IndexOutOfRange)
               else if weight (providers b' ! nat (lastIndex b')) \<ge> currentWeight b'
               then Some (Inr (provider (providers b' ! nat (lastIndex b')), b'))
               else Next_loop_fuel k b'))"

text \<open>\<open>Balancer.Next\<close>: \<open>nil\<close> for no provider, the only provider when there is one.\<close>

definition Balancer_Next ::
  "('q, 'r) Balancer \<Rightarrow> (panic + ('q, 'r) Provider option \<times> ('q, 'r) Balancer) option" where
  "Balancer_Next b =
     (if length (providers b) = 0 then Some (Inr (None, b))
      else if length (providers b) = 1 then Some (Inr (Some (provider (providers b ! 0)), b))
      else (case Next_loop b of
              None \<Rightarrow> None
            | Some (Inl e) \<Rightarrow> Some (Inl e)
            | Some (Inr (p, b')) \<Rightarrow> Some (Inr (Some p, b'))))"

text \<open>
  A number of consecutive calls of \<open>Next\<close> on one balancer, as the loops of
  balancer\_test.go make them: the providers returned, in order, and the balancer
  afterwards; \<open>None\<close> if a call panics or does not return.
\<close>

fun Next_calls ::
  "nat \<Rightarrow> ('q, 'r) Balancer \<Rightarrow> (('q, 'r) Provider option list \<times> ('q, 'r) Balancer) option" where
  "Next_calls 0 b = Some ([], b)"
| "Next_calls (Suc k) b =
     (case Balancer_Next b of
        Some (Inr (p, b')) \<Rightarrow>
          (case Next_calls k b' of
             Some (ps, b'') \<Rightarrow> Some (p # ps, b'')
           | None \<Rightarrow> None)
      | _ \<Rightarrow> None)"

text \<open>
  The test counts the selections by name. \<open>has_run3 x xs\<close> holds when \<open>x\<close> stands at
  three consecutive positions of \<open>xs\<close>.
\<close>

definition names :: "('q, 'r) Provider option list \<Rightarrow> string option list" where
  "names sel = map (map_option Name) sel"

fun has_run3 :: "'a \<Rightarrow> 'a list \<Rightarrow> bool" where
  "has_run3 x (a # b # c # xs) = ((a = x \<and> b = x \<and> c = x) \<or> has_run3 x (b # c # xs))"
| "has_run3 x xs = False"

text \<open>
  The invariant of a constructed balancer with at least one provider, kept by every
  iteration of the loop.
\<close>

definition wf_balancer :: "('q, 'r) Balancer \<Rightarrow> bool" where
  "wf_balancer b \<longleftrightarrow>
     providers b \<noteq> [] \<and> 1 \<le> gcd' b \<and>
     (\<forall>wp \<in> set (providers b). weight wp \<le> maxWeight b) \<and>
     (\<exists>wp \<in> set (providers b). weight wp = maxWeight b) \<and>
     0 \<le> currentWeight b \<and> currentWeight b \<le> maxWeight b \<and>
     - 1 \<le> lastIndex b \<and> lastIndex b < int (length (providers b))"

section \<open>The router (type Router)\<close>

text \<open>
  What a call of the router does to the outside is recorded as a list of events: the
  admission wait \<open>rateLimiter.Wait(n)\<close>, a call of \<open>Complete\<close> on the backend of a given
  name, and a \<open>time.Sleep\<close> of a number of seconds. The token bucket behind \<open>Wait\<close>
  computes on \<open>float64\<close> and the wall clock and is not modelled further.
\<close>

datatype event = Wait nat | Call string | Sleep nat

record ('q, 'r) Router =
  balancer :: "('q, 'r) Balancer"
  npcMapping :: "string \<rightharpoonup> ('q, 'r) Provider"
  successCount :: "string \<rightharpoonup> int"
  errorCount :: "string \<rightharpoonup> int"
  lastError :: "string \<rightharpoonup> string"

text \<open>A counter of a Go \<open>map[string]int\<close>: 0 for a missing key.\<close>

definition counter :: "(string \<rightharpoonup> int) \<Rightarrow> string \<Rightarrow> int" where
  "counter m n = (case m n of None \<Rightarrow> 0 | Some c \<Rightarrow> c)"

definition recordSuccess :: "('q, 'r) Router \<Rightarrow> string \<Rightarrow> ('q, 'r) Router" where
  "recordSuccess r n = r\<lparr>successCount := (successCount r)(n \<mapsto> counter (successCount r) n + 1)\<rparr>"

definition recordError :: "('q, 'r) Router \<Rightarrow> string \<Rightarrow> error \<Rightarrow> ('q, 'r) Router" where
  "recordError r n err =
     r\<lparr>errorCount := (errorCount r)(n \<mapsto> counter (errorCount r) n + 1),
       lastError := (lastError r)(n \<mapsto> error_string err)\<rparr>"

text \<open>
  \<open>Router.Complete\<close>: the admission wait, the selection by the balancer, one call of the
  selected provider, the bookkeeping. The result is the value returned (an error or a
  completion result), the router afterwards and the events, in order.
\<close>

definition Router_Complete ::
  "('q, 'r) Router \<Rightarrow> Context \<Rightarrow> 'q \<Rightarrow>
   (panic + (error + 'r) \<times> ('q, 'r) Router \<times> event list) option" where
  "Router_Complete r ctx q =
     (case Balancer_Next (balancer r) of
        None \<Rightarrow> None
      | Some (Inl pn) \<Rightarrow> Some (Inl pn)
      | Some (Inr (None, b')) \<Rightarrow>
          Some (Inr (Inl (Failure ''no providers available''), r\<lparr>balancer := b'\<rparr>, [Wait 1]))
      | Some (Inr (Some p, b')) \<Rightarrow>
          (case Complete p ctx q of
             Inl err \<Rightarrow>
               Some (Inr (Inl err, recordError (r\<lparr>balancer := b'\<rparr>) (Name p) err,
                          [Wait 1, Call (Name p)]))
           | Inr result \<Rightarrow>
               Some (Inr (Inr result, recordSuccess (r\<lparr>balancer := b'\<rparr>) (Name p),
                          [Wait 1, Call (Name p)]))))"

text \<open>
  The router that \<open>NewRouter\<close> returns around the balancer it has constructed (reading
  the configuration and the environment is not modelled), and the value and events of a
  call that returns.
\<close>

definition fresh_Router :: "('q, 'r) Balancer \<Rightarrow> ('q, 'r) Router" where
  "fresh_Router b =
     \<lparr>balancer = b, npcMapping = Map.empty, successCount = Map.empty, errorCount = Map.empty,
      lastError = Map.empty\<rparr>"

definition outcome ::
  "(panic + (error + 'r) \<times> ('q, 'r) Router \<times> event list) option \<Rightarrow>
   ((error + 'r) \<times> event list) option" where
  "outcome x = (case x of Some (Inr (res, r', evs)) \<Rightarrow> Some (res, evs) | _ \<Rightarrow> None)"

section \<open>The decision cache (internal/api/batch.go)\<close>

text \<open>
  A value of type \<open>interface{}\<close> is \<open>nil\<close>, a string or something else; a
  \<open>map[string]interface{}\<close> (an observation, a decision) is a map from strings. A
  \<open>time.Time\<close> is a number of nanoseconds on one clock, a \<open>time.Duration\<close> a number of
  nanoseconds; \<open>time.Since\<close> is a difference (its saturation at the ends of the 64-bit
  range is left out).
\<close>

datatype 'a any = Null | Str string | Other 'a

type_synonym 'a object = "string \<rightharpoonup> 'a any"

record 'a CachedDecision =
  Decision :: "'a object"
  CreatedAt :: int
  HitCount :: int

record 'a DecisionCache =
  entries :: "string \<rightharpoonup> 'a CachedDecision"
  maxSize :: int
  ttl :: int

definition NewDecisionCache :: "int \<Rightarrow> int \<Rightarrow> 'a DecisionCache" where
  "NewDecisionCache maxSize' ttl' = \<lparr>entries = Map.empty, maxSize = maxSize', ttl = ttl'\<rparr>"

text \<open>
  \<open>Get\<close> at the clock reading \<open>now\<close>: the entry found (with its hit counter already
  incremented, as the pointer returned shows it) and the cache afterwards.
\<close>

definition DecisionCache_Get ::
  "'a DecisionCache \<Rightarrow> string \<Rightarrow> int \<Rightarrow> 'a CachedDecision option \<times> 'a DecisionCache" where
  "DecisionCache_Get c key now =
     (case entries c key of
        None \<Rightarrow> (None, c)
      | Some entry \<Rightarrow>
          if now - CreatedAt entry > ttl c then (None, c)
          else (let entry' = entry\<lparr>HitCount := HitCount entry + 1\<rparr>
                in (Some entry', c\<lparr>entries := (entries c)(key \<mapsto> entry')\<rparr>)))"

text \<open>
  The loop of \<open>evictOldest\<close> ranges over the map in an order that Go leaves open: the
  order is an argument, a list of the keys. The loop carries \<open>(oldestKey, oldestTime)\<close>,
  which start as the empty string and the zero \<open>time.Time\<close> (year 1, as nanoseconds
  before 1970).
\<close>

definition zeroTime :: int where
  "zeroTime = - 62135596800000000000"

fun oldest_scan ::
  "(string \<rightharpoonup> 'a CachedDecision) \<Rightarrow> string \<times> int \<Rightarrow> string list \<Rightarrow> string \<times> int" where
  "oldest_scan m (oldestKey, oldestTime) [] = (oldestKey, oldestTime)"
| "oldest_scan m (oldestKey, oldestTime) (key # keys) =
     (case m key of
        None \<Rightarrow> oldest_scan m (oldestKey, oldestTime) keys
      | Some entry \<Rightarrow>
          if oldestKey = '''' \<or> CreatedAt entry < oldestTime
          then oldest_scan m (key, CreatedAt entry) keys
          else oldest_scan m (oldestKey, oldestTime) keys)"

definition evictOldest :: "'a DecisionCache \<Rightarrow> string list \<Rightarrow> 'a DecisionCache" where
  "evictOldest c order =
     (let (oldestKey, oldestTime) = oldest_scan (entries c) ('''', zeroTime) order
      in if oldestKey \<noteq> '''' then c\<lparr>entries := (entries c)(oldestKey := None)\<rparr> else c)"

text \<open>
  \<open>Set\<close> at the clock reading \<open>now\<close>; \<open>len(c.entries)\<close> is the number of keys of the
  map.
\<close>

definition DecisionCache_Set ::
  "'a DecisionCache \<Rightarrow> string \<Rightarrow> 'a object \<Rightarrow> int \<Rightarrow> string list \<Rightarrow> 'a DecisionCache" where
  "DecisionCache_Set c key decision now order =
     (let c' = (if int (card (dom (entries c))) \<ge> maxSize c then evictOldest c order else c)
      in c'\<lparr>entries := (entries c')
             (key \<mapsto> \<lparr>Decision = decision, CreatedAt = now, HitCount = 0\<rparr>)\<rparr>)"

section \<open>The batch decision system (internal/api/batch.go)\<close>

text \<open>\<open>DefaultDecision\<close> of manager.go; \<open>obs["npc_id"]\<close> is \<open>nil\<close> for a missing key.\<close>

definition DefaultDecision :: "'a object \<Rightarrow> 'a object" where
  "DefaultDecision obs =
     [''npc_id'' \<mapsto> (case obs ''npc_id'' of None \<Rightarrow> Null | Some v \<Rightarrow> v),
      ''action'' \<mapsto> Str ''explore'',
      ''reason'' \<mapsto> Str ''Looking around...'']"

text \<open>
  In the response a decision that has not been filled in is the \<open>nil\<close> map, \<open>None\<close>; a
  \<open>nil\<close> slice is the empty list.
\<close>

record 'a BatchDecisionResponse =
  Decisions :: "'a object option list"
  Strategy :: string
  FromCache :: "bool list"
  Error :: "error option"

record 'a BatchDecisionSystem =
  cache :: "'a DecisionCache"
  batchCalls :: int
  cachHits :: int
  fallbackUsed :: int
  totalDecisions :: int

text \<open>
  What \<open>GetBatchDecisions\<close> takes from outside. \<open>hashObservation\<close>,
  \<open>buildFlexibleMultiNPCPrompt\<close> and \<open>parseMultiNPCResponse\<close> are functions of their
  arguments built on crypto/sha256, encoding/json and fmt: they are parameters, and what
  is proved holds for whatever they compute. \<open>callLLMWithFallback\<close> is the whole
  attempt to obtain one completion for a prompt (providers in turn, goroutines, the
  25 second timeout): its result is a parameter, and it is the only way to the network
  (its parameter \<open>expectedCount\<close> is not used by the source). \<open>ctx_Err k\<close> is what
  the k-th call of \<open>ctx.Err()\<close> returns, \<open>time_Now k\<close> the k-th reading of the
  clock and \<open>range_order k\<close> the order in which the k-th eviction ranges over the map.
\<close>

record 'a world =
  hashObservation :: "'a object \<Rightarrow> string"
  buildFlexibleMultiNPCPrompt :: "'a object list \<Rightarrow> string"
  callLLMWithFallback :: "string \<Rightarrow> error + string"
  parseMultiNPCResponse :: "string \<Rightarrow> 'a object list \<Rightarrow> 'a object list"
  ctx_Err :: "nat \<Rightarrow> error option"
  time_Now :: "nat \<Rightarrow> int"
  range_order :: "nat \<Rightarrow> string list"

text \<open>The response \<open>&BatchDecisionResponse{Error: err}\<close>.\<close>

definition error_response :: "error \<Rightarrow> 'a BatchDecisionResponse" where
  "error_response err = \<lparr>Decisions = [], Strategy = '''', FromCache = [], Error = Some err\<rparr>"

text \<open>
  Phase 1, the loop over the observations from index \<open>i\<close> on, carrying the response,
  \<open>uncachedIndices\<close>, \<open>uncachedObs\<close> and the system (cache and hit counter).
\<close>

fun check_cache ::
  "'a world \<Rightarrow> nat \<Rightarrow> 'a object list \<Rightarrow>
   'a BatchDecisionResponse \<times> nat list \<times> 'a object list \<times> 'a BatchDecisionSystem \<Rightarrow>
   'a BatchDecisionResponse \<times> nat list \<times> 'a object list \<times> 'a BatchDecisionSystem" where
  "check_cache w i [] st = st"
| "check_cache w i (obs # rest) (response, uncachedIndices, uncachedObs, bds) =
     (let hash = hashObservation w obs
      in case DecisionCache_Get (cache bds) hash (time_Now w i) of
           (Some cached, c') \<Rightarrow>
             check_cache w (Suc i) rest
               (response\<lparr>Decisions := (Decisions response)[i := Some (Decision cached)],
                          FromCache := (FromCache response)[i := True]\<rparr>,
                uncachedIndices, uncachedObs,
                bds\<lparr>cache := c', cachHits := cachHits bds + 1\<rparr>)
         | (None, c') \<Rightarrow>
             check_cache w (Suc i) rest
               (response, uncachedIndices @ [i], uncachedObs @ [obs], bds\<lparr>cache := c'\<rparr>))"

text \<open>
  The loop of the failure branch: a default decision at every uncached index. The
  indices come from phase 1 and lie within the observations.
\<close>

fun fill_defaults ::
  "'a object list \<Rightarrow> nat list \<Rightarrow> 'a BatchDecisionResponse \<Rightarrow> 'a BatchDecisionResponse" where
  "fill_defaults observations [] response = response"
| "fill_defaults observations (idx # idxs) response =
     fill_defaults observations idxs
       (response\<lparr>Decisions :=
          (Decisions response)[idx := Some (DefaultDecision (observations ! idx))]\<rparr>)"

text \<open>
  Phase 4, the loop over \<open>uncachedIndices\<close> from position \<open>i\<close> on: the i-th parsed
  decision is stored and cached, and a default is used when the decisions run out.
\<close>

fun distribute ::
  "'a world \<Rightarrow> 'a object list \<Rightarrow> 'a object list \<Rightarrow> nat \<Rightarrow> nat list \<Rightarrow>
   'a BatchDecisionResponse \<times> 'a BatchDecisionSystem \<Rightarrow>
   'a BatchDecisionResponse \<times> 'a BatchDecisionSystem" where
  "distribute w observations decisions i [] st = st"
| "distribute w observations decisions i (idx # idxs) (response, bds) =
     (if i < length decisions
      then (let response' = response\<lparr>Decisions :=
                  (Decisions response)[idx := Some (decisions ! i)]\<rparr>;
                hash = hashObservation w (observations ! idx);
                c' = DecisionCache_Set (cache bds) hash (decisions ! i)
                       (time_Now w (length observations + i)) (range_order w i)
            in distribute w observations decisions (Suc i) idxs (response', bds\<lparr>cache := c'\<rparr>))
      else distribute w observations decisions (Suc i) idxs
             (response\<lparr>Decisions :=
                (Decisions response)[idx := Some (DefaultDecision (observations ! idx))]\<rparr>,
              bds))"

text \<open>
  \<open>GetBatchDecisions\<close>: the response, the system afterwards, and the prompts for which
  \<open>callLLMWithFallback\<close> was called.
\<close>

definition GetBatchDecisions ::
  "'a world \<Rightarrow> 'a BatchDecisionSystem \<Rightarrow> 'a object list \<Rightarrow>
   'a BatchDecisionResponse \<times> 'a BatchDecisionSystem \<times> string list" where
  "GetBatchDecisions w bds observations =
     (if length observations = 0
      then (error_response (Failure ''no observations provided''), bds, [])
      else
        (let bds1 = bds\<lparr>totalDecisions := totalDecisions bds + int (length observations)\<rparr>
         in case ctx_Err w 0 of
              Some err \<Rightarrow> (error_response err, bds1, [])
            | None \<Rightarrow>
                (let response = \<lparr>Decisions = replicate (length observations) None,
                                 Strategy = '''',
                                 FromCache = replicate (length observations) False,
                                 Error = None\<rparr>;
                     (response1, uncachedIndices, uncachedObs, bds2) =
                       check_cache w 0 observations (response, [], [], bds1)
                 in if length uncachedObs = 0 then (response1, bds2, [])
                    else
                      (case ctx_Err w 1 of
                         Some err \<Rightarrow> (error_response err, bds2, [])
                       | None \<Rightarrow>
                           (let prompt = buildFlexibleMultiNPCPrompt w uncachedObs
                            in case callLLMWithFallback w prompt of
                                 Inl err \<Rightarrow>
                                   (fill_defaults observations uncachedIndices response1,
                                    bds2\<lparr>fallbackUsed := fallbackUsed bds2 + 1\<rparr>,
                                    [prompt])
                               | Inr llmResponse \<Rightarrow>
                                   (let bds3 = bds2\<lparr>batchCalls := batchCalls bds2 + 1\<rparr>;
                                        decisions = parseMultiNPCResponse w llmResponse uncachedObs;
                                        (response2, bds4) =
                                          distribute w observations decisions 0 uncachedIndices
                                            (response1, bds3)
                                    in (response2, bds4, [prompt])))))))"

text \<open>
  For the statements about a call: whether the probe of the i-th observation finds a
  live entry in a cache \<open>c\<close>, the decision stored for it, the indices from \<open>i\<close> on whose
  probe fails, and two caches that agree on the time to live and on the decision and
  creation time of every entry (probing changes hit counters only).
\<close>

definition hit :: "'a world \<Rightarrow> 'a DecisionCache \<Rightarrow> 'a object list \<Rightarrow> nat \<Rightarrow> bool" where
  "hit w c observations i \<longleftrightarrow>
     fst (DecisionCache_Get c (hashObservation w (observations ! i)) (time_Now w i)) \<noteq> None"

definition cached_decision ::
  "'a world \<Rightarrow> 'a DecisionCache \<Rightarrow> 'a object list \<Rightarrow> nat \<Rightarrow> 'a object option" where
  "cached_decision w c observations i =
     map_option Decision (entries c (hashObservation w (observations ! i)))"

definition misses :: "'a world \<Rightarrow> 'a DecisionCache \<Rightarrow> 'a object list \<Rightarrow> nat \<Rightarrow> nat list" where
  "misses w c observations i =
     filter (\<lambda>j. \<not> hit w c observations j) [i..<length observations]"

definition same_stamps :: "'a DecisionCache \<Rightarrow> 'a DecisionCache \<Rightarrow> bool" where
  "same_stamps c c' \<longleftrightarrow>
     ttl c' = ttl c \<and>
     (\<forall>k. map_option (\<lambda>e. (Decision e, CreatedAt e)) (entries c' k) =
          map_option (\<lambda>e. (Decision e, CreatedAt e)) (entries c k))"

section \<open>Concrete providers, caches and worlds\<close>

text \<open>
  \<open>mockProvider\<close> of balancer\_test.go answers every request with the content \<open>mock\<close>
  and its own name, whatever the context; the request is the prompt. The test uses three
  of them with the weights 3, 2 and 1. \<open>failingProvider\<close> answers every request with
  one error.
\<close>

definition mockProvider :: "string \<Rightarrow> (string, CompletionResult) Provider" where
  "mockProvider n =
     \<lparr>Name = n,
      Complete = (\<lambda>ctx q. Inr \<lparr>Content = ''mock'', Provider' = n, Model = '''', Latency = 0,
                                 TokensIn = 0, TokensOut = 0\<rparr>)\<rparr>"

definition test_providers :: "(string, CompletionResult) Provider list" where
  "test_providers = [mockProvider ''heavy'', mockProvider ''medium'', mockProvider ''light'']"

definition test_weights :: "string \<rightharpoonup> int" where
  "test_weights = [''heavy'' \<mapsto> 3, ''medium'' \<mapsto> 2, ''light'' \<mapsto> 1]"

definition two_mocks :: "(string, CompletionResult) Provider list" where
  "two_mocks = [mockProvider ''a'', mockProvider ''b'']"

definition failingProvider :: "string \<Rightarrow> string \<Rightarrow> (string, CompletionResult) Provider" where
  "failingProvider n msg = \<lparr>Name = n, Complete = (\<lambda>ctx q. Inl (Failure msg))\<rparr>"

definition flaky_router :: "(string, CompletionResult) Router" where
  "flaky_router =
     fresh_Router (NewBalancer [failingProvider ''a'' ''[a] HTTP 503: unavailable'',
                                mockProvider ''b''] Map.empty)"

definition mock_router :: "(string, CompletionResult) Router" where
  "mock_router = fresh_Router (NewBalancer two_mocks Map.empty)"

text \<open>
  A balancer over three providers with given weights, maximal weight 3 and gcd 1, at a
  given current weight and index; the six orders of the weights 3, 2 and 1; and the
  states such a balancer moves through: the initial one and, for every current weight
  from 1 to 3, every index whose entry has at least that weight.
\<close>

definition bal3 ::
  "('q, 'r) Provider \<Rightarrow> ('q, 'r) Provider \<Rightarrow> ('q, 'r) Provider \<Rightarrow> int \<Rightarrow> int \<Rightarrow> int \<Rightarrow>
   int \<Rightarrow> int \<Rightarrow> ('q, 'r) Balancer" where
  "bal3 p0 p1 p2 w0 w1 w2 cw li =
     \<lparr>providers = [\<lparr>provider = p0, weight = w0\<rparr>, \<lparr>provider = p1, weight = w1\<rparr>,
                   \<lparr>provider = p2, weight = w2\<rparr>],
      currentWeight = cw, maxWeight = 3, gcd' = 1, lastIndex = li\<rparr>"

definition weights321 :: "int \<Rightarrow> int \<Rightarrow> int \<Rightarrow> bool" where
  "weights321 w0 w1 w2 \<longleftrightarrow>
     (w0 = 3 \<and> w1 = 2 \<and> w2 = 1) \<or> (w0 = 3 \<and> w1 = 1 \<and> w2 = 2) \<or>
     (w0 = 2 \<and> w1 = 3 \<and> w2 = 1) \<or> (w0 = 2 \<and> w1 = 1 \<and> w2 = 3) \<or>
     (w0 = 1 \<and> w1 = 3 \<and> w2 = 2) \<or> (w0 = 1 \<and> w1 = 2 \<and> w2 = 3)"

definition on_cycle3 ::
  "('q, 'r) Provider \<Rightarrow> ('q, 'r) Provider \<Rightarrow> ('q, 'r) Provider \<Rightarrow> int \<Rightarrow> int \<Rightarrow> int \<Rightarrow>
   ('q, 'r) Balancer \<Rightarrow> bool" where
  "on_cycle3 p0 p1 p2 w0 w1 w2 b \<longleftrightarrow>
     b = bal3 p0 p1 p2 w0 w1 w2 0 (- 1) \<or>
     (\<exists>cw \<in> {1, 2, 3}. \<exists>li \<in> {0, 1, 2}.
        cw \<le> [w0, w1, w2] ! nat li \<and> b = bal3 p0 p1 p2 w0 w1 w2 cw li)"

text \<open>
  A cache of maximal size 2 that is full, a full cache with a time to live of 0, a full
  cache with an entry under the empty key, two observations, a cache that knows the
  first of them, a world in which every completion fails and the fingerprint of an
  observation is its name, the same world with a completion that succeeds and is parsed
  into one decision, with a context that is cancelled after the first check, and with a
  context that is cancelled from the start.
\<close>

definition full_cache :: "unit DecisionCache" where
  "full_cache =
     \<lparr>entries = [''aa'' \<mapsto> \<lparr>Decision = Map.empty, CreatedAt = 1, HitCount = 0\<rparr>,
                 ''bb'' \<mapsto> \<lparr>Decision = Map.empty, CreatedAt = 5, HitCount = 3\<rparr>],
      maxSize = 2, ttl = 10\<rparr>"

definition brief_cache :: "unit DecisionCache" where
  "brief_cache =
     \<lparr>entries = [''aa'' \<mapsto> \<lparr>Decision = Map.empty, CreatedAt = 1, HitCount = 0\<rparr>],
      maxSize = 1, ttl = 0\<rparr>"

definition sentinel_cache :: "unit DecisionCache" where
  "sentinel_cache =
     \<lparr>entries = ['''' \<mapsto> \<lparr>Decision = Map.empty, CreatedAt = 1, HitCount = 0\<rparr>,
                 ''a'' \<mapsto> \<lparr>Decision = Map.empty, CreatedAt = 5, HitCount = 0\<rparr>],
      maxSize = 2, ttl = 10\<rparr>"

definition alice :: "unit object" where
  "alice = [''name'' \<mapsto> Str ''alice'', ''npc_id'' \<mapsto> Str ''npc_1'']"

definition bob :: "unit object" where
  "bob = [''name'' \<mapsto> Str ''bob'', ''npc_id'' \<mapsto> Str ''npc_2'']"

definition name_key :: "unit object \<Rightarrow> string" where
  "name_key obs = (case obs ''name'' of Some (Str s) \<Rightarrow> s | _ \<Rightarrow> ''-'')"

definition down_world :: "unit world" where
  "down_world =
     \<lparr>hashObservation = name_key,
      buildFlexibleMultiNPCPrompt = (\<lambda>obs. ''prompt''),
      callLLMWithFallback = (\<lambda>prompt. Inl (Failure ''all providers failed'')),
      parseMultiNPCResponse = (\<lambda>response obs. []),
      ctx_Err = (\<lambda>k. None),
      time_Now = (\<lambda>k. 105),
      range_order = (\<lambda>k. [])\<rparr>"

definition warm_system :: "unit BatchDecisionSystem" where
  "warm_system =
     \<lparr>cache = \<lparr>entries = [''alice'' \<mapsto> \<lparr>Decision = [''action'' \<mapsto> Str ''wait''],
                                        CreatedAt = 100, HitCount = 0\<rparr>],
               maxSize = 100, ttl = 10\<rparr>,
      batchCalls = 0, cachHits = 0, fallbackUsed = 0, totalDecisions = 0\<rparr>"

definition up_world :: "unit world" where
  "up_world =
     down_world\<lparr>callLLMWithFallback := (\<lambda>prompt. Inr ''response''),
                parseMultiNPCResponse :=
                  (\<lambda>response obs. [[''npc_id'' \<mapsto> Str ''npc_2'', ''action'' \<mapsto> Str ''talk'']])\<rparr>"

definition late_cancel_world :: "unit world" where
  "late_cancel_world = down_world\<lparr>ctx_Err := (\<lambda>k. if k = 0 then None else Some Canceled)\<rparr>"

definition cancelled_world :: "unit world" where
  "cancelled_world = down_world\<lparr>ctx_Err := (\<lambda>k. Some Canceled)\<rparr>"

section \<open>The balancer: constructed balancers and the scan loop\<close>

subsection \<open>Arithmetic of the construction\<close>

lemma smod_small: "0 \<le> a \<Longrightarrow> a < b \<Longrightarrow> (a::int) smod b = a"
  by (simp add: smod_mod_positive)

lemma smod_self: "0 < b \<Longrightarrow> (b::int) smod b = 0"
  by (simp add: smod_mod_positive)

lemma gcd_go_eq: "0 \<le> a \<Longrightarrow> 0 \<le> b \<Longrightarrow> gcd_go a b = gcd a b"
proof (induction a b rule: gcd_go.induct)
  case (1 a b)
  show ?case
  proof (cases "b = 0")
    case True
    with 1 show ?thesis by (simp add: gcd_go.simps)
  next
    case False
    with 1 have pos: "0 < b" by simp
    have sm: "a smod b = a mod b" using 1(2) pos by (simp add: smod_mod_positive)
    have "gcd_go a b = gcd_go b (a smod b)" using False by (simp add: gcd_go.simps)
    also have "\<dots> = gcd b (a smod b)" using 1 False pos sm by simp
    also have "\<dots> = gcd a b" using sm by (simp add: gcd.commute gcd_red_int[symmetric])
    finally show ?thesis .
  qed
qed

lemma gcd_go_pos: "1 \<le> a \<Longrightarrow> 1 \<le> b \<Longrightarrow> 1 \<le> gcd_go a b"
proof -
  assume a: "1 \<le> a" and b: "1 \<le> b"
  then have "gcd_go a b = gcd a b" by (simp add: gcd_go_eq)
  moreover have "0 < gcd a b" using a by simp
  ultimately show ?thesis by linarith
qed

lemma fuel_imp_loop: "Next_loop_fuel k b = Some r \<Longrightarrow> Next_loop b = Some r"
proof (induction k arbitrary: b)
  case 0
  then show ?case by simp
next
  case (Suc k)
  show ?case
    using Suc.prems Suc.IH [of "advance b"]
    by (subst Next_loop.simps) (auto simp: Let_def split: if_splits)
qed

lemma fuel_mono: "Next_loop_fuel k b = Some r \<Longrightarrow> Next_loop_fuel (k + d) b = Some r"
proof (induction k arbitrary: b)
  case 0
  then show ?case by simp
next
  case (Suc k)
  show ?case
    using Suc.prems Suc.IH [of "advance b"]
    by (auto simp: Let_def split: if_splits)
qed

lemma fuel_le: "Next_loop_fuel k b = Some r \<Longrightarrow> k \<le> k' \<Longrightarrow> Next_loop_fuel k' b = Some r"
  using fuel_mono [of k b r "k' - k"] by simp

lemma advance_fields [simp]:
  "providers (advance b) = providers b"
  "maxWeight (advance b) = maxWeight b"
  "gcd' (advance b) = gcd' b"
  by (simp_all add: advance_def Let_def)

lemma advance_lastIndex:
  "lastIndex (advance b) = (lastIndex b + 1) smod int (length (providers b))"
  by (simp add: advance_def Let_def)

lemma advance_currentWeight:
  "currentWeight (advance b) =
     (if lastIndex (advance b) = 0
      then (if currentWeight b - gcd' b \<le> 0 then maxWeight b else currentWeight b - gcd' b)
      else currentWeight b)"
  by (simp add: advance_def Let_def)

lemma scan_weights_props:
  assumes "scan_weights (m, g) wps = (m', g')"
    and "1 \<le> g" and "\<forall>wp \<in> set wps. 1 \<le> weight wp"
  shows "1 \<le> g' \<and> m \<le> m' \<and> (\<forall>wp \<in> set wps. weight wp \<le> m') \<and>
         (m' = m \<or> (\<exists>wp \<in> set wps. weight wp = m'))"
  using assms
proof (induction wps arbitrary: m g)
  case Nil
  then show ?case by simp
next
  case (Cons wp wps)
  let ?m = "if weight wp > m then weight wp else m"
  let ?g = "gcd_go g (weight wp)"
  have sc: "scan_weights (?m, ?g) wps = (m', g')" using Cons.prems(1) by simp
  have g1: "1 \<le> ?g" using Cons.prems by (simp add: gcd_go_pos)
  have rest: "\<forall>wp \<in> set wps. 1 \<le> weight wp" using Cons.prems by simp
  from Cons.IH [OF sc g1 rest]
  have ih: "1 \<le> g'" "?m \<le> m'" "\<forall>wp \<in> set wps. weight wp \<le> m'"
    "m' = ?m \<or> (\<exists>wp \<in> set wps. weight wp = m')" by auto
  show ?case using ih by (auto split: if_splits)
qed

lemma wrap_provider_weight: "1 \<le> weight (wrap_provider ws p)"
  by (simp add: wrap_provider_def Let_def)

lemma NewBalancer_wf: "ps \<noteq> [] \<Longrightarrow> wf_balancer (NewBalancer ps ws)"
proof -
  assume "ps \<noteq> []"
  then obtain p rest where ps: "ps = p # rest" by (cases ps) auto
  obtain m g where sc:
    "scan_weights (weight (wrap_provider ws p), weight (wrap_provider ws p))
       (map (wrap_provider ws) rest) = (m, g)" by force
  have "\<forall>wp \<in> set (map (wrap_provider ws) rest). 1 \<le> weight wp"
    by (auto simp: wrap_provider_weight)
  from scan_weights_props [OF sc wrap_provider_weight this]
  have props: "1 \<le> g" "weight (wrap_provider ws p) \<le> m"
    "\<forall>wp \<in> set (map (wrap_provider ws) rest). weight wp \<le> m"
    "m = weight (wrap_provider ws p) \<or> (\<exists>wp \<in> set (map (wrap_provider ws) rest). weight wp = m)"
    by auto
  have nb: "NewBalancer ps ws =
    \<lparr>providers = map (wrap_provider ws) ps, currentWeight = 0, maxWeight = m, gcd' = g,
     lastIndex = - 1\<rparr>"
    using sc by (simp add: NewBalancer_def ps)
  have "1 \<le> weight (wrap_provider ws p)" by (rule wrap_provider_weight)
  then have "0 \<le> m" using props(2) by simp
  then show ?thesis
    unfolding wf_balancer_def nb using props by (auto simp: ps)
qed

lemma advance_wf: "wf_balancer b \<Longrightarrow> wf_balancer (advance b)"
proof -
  assume wf: "wf_balancer b"
  let ?n = "int (length (providers b))"
  have n: "0 < ?n" using wf by (simp add: wf_balancer_def)
  have li: "- 1 \<le> lastIndex b" "lastIndex b < ?n" using wf by (simp_all add: wf_balancer_def)
  have i: "0 \<le> lastIndex (advance b) \<and> lastIndex (advance b) < ?n"
  proof (cases "lastIndex b + 1 = ?n")
    case True
    then show ?thesis using n by (simp add: advance_lastIndex smod_self)
  next
    case False
    then have "lastIndex b + 1 < ?n" "0 \<le> lastIndex b + 1" using li by simp_all
    then show ?thesis by (simp add: advance_lastIndex smod_small)
  qed
  have cw: "0 \<le> currentWeight (advance b) \<and> currentWeight (advance b) \<le> maxWeight b"
    using wf by (auto simp: advance_currentWeight wf_balancer_def)
  show ?thesis using wf i cw by (simp add: wf_balancer_def)
qed

subsection \<open>The scan loop returns within two passes\<close>

lemma fuel_step_select:
  assumes "lastIndex (advance b) = int i" and "i < length (providers b)"
    and "currentWeight (advance b) \<le> weight (providers b ! i)"
  shows "Next_loop_fuel (Suc k) b = Some (Inr (provider (providers b ! i), advance b))"
proof -
  have "providers b \<noteq> []" using assms(2) by auto
  moreover have "nat (lastIndex (advance b)) = i" using assms(1) by simp
  ultimately show ?thesis using assms by (simp add: Let_def)
qed

lemma fuel_step_skip:
  assumes "lastIndex (advance b) = int i" and "i < length (providers b)"
    and "\<not> currentWeight (advance b) \<le> weight (providers b ! i)"
  shows "Next_loop_fuel (Suc k) b = Next_loop_fuel k (advance b)"
proof -
  have "providers b \<noteq> []" using assms(2) by auto
  moreover have "nat (lastIndex (advance b)) = i" using assms(1) by simp
  ultimately show ?thesis using assms by (simp add: Let_def)
qed

lemma scan_pass:
  assumes "lastIndex b = int j" and "j < m" and "m < length (providers b)"
    and "currentWeight b \<le> weight (providers b ! m)"
  shows "\<exists>r. Next_loop_fuel (m - j) b = Some (Inr r)"
  using assms
proof (induction "m - j" arbitrary: b j)
  case 0
  then show ?case by simp
next
  case (Suc d)
  let ?b = "advance b"
  have n: "Suc j < length (providers b)" using Suc.prems by simp
  have li: "lastIndex ?b = int (Suc j)"
    using Suc.prems(1) n by (simp add: advance_lastIndex smod_small)
  have cw: "currentWeight ?b = currentWeight b"
    using li by (simp add: advance_currentWeight)
  have fuel: "m - j = Suc d" using Suc.hyps(2) by simp
  show ?case
  proof (cases "currentWeight ?b \<le> weight (providers b ! Suc j)")
    case True
    show ?thesis unfolding fuel using fuel_step_select [OF li n True] by simp
  next
    case False
    then have "Suc j \<noteq> m" using Suc.prems(4) cw by auto
    then have lt: "Suc j < m" using Suc.prems(2) by simp
    have d: "d = m - Suc j" using Suc.hyps(2) by simp
    have "\<exists>r. Next_loop_fuel (m - Suc j) ?b = Some (Inr r)"
      using Suc.hyps(1) [OF d li lt] Suc.prems(3,4) cw by simp
    then show ?thesis unfolding fuel using fuel_step_skip [OF li n False] d by simp
  qed
qed

lemma max_entry:
  assumes "wf_balancer b"
  shows "\<exists>m < length (providers b). weight (providers b ! m) = maxWeight b"
  using assms by (auto simp: wf_balancer_def in_set_conv_nth)

lemma scan_wrap:
  assumes wf: "wf_balancer b"
    and li: "lastIndex b = - 1 \<or> lastIndex b = int (length (providers b)) - 1"
  shows "\<exists>r. Next_loop_fuel (length (providers b)) b = Some (Inr r)"
proof -
  let ?n = "length (providers b)"
  let ?b = "advance b"
  have n: "0 < ?n" using wf by (simp add: wf_balancer_def)
  have "lastIndex b + 1 = 0 \<or> lastIndex b + 1 = int ?n" using li by auto
  then have "(lastIndex b + 1) smod int ?n = 0"
  proof
    assume "lastIndex b + 1 = 0"
    then show ?thesis by simp
  next
    assume "lastIndex b + 1 = int ?n"
    then show ?thesis using n by (simp add: smod_self)
  qed
  then have li0: "lastIndex ?b = int 0" by (simp add: advance_lastIndex)
  have wf': "wf_balancer ?b" using wf by (rule advance_wf)
  have cw: "currentWeight ?b \<le> maxWeight b" using wf' by (simp add: wf_balancer_def)
  obtain k where k: "?n = Suc k" using n by (cases ?n) auto
  show ?thesis
  proof (cases "currentWeight ?b \<le> weight (providers b ! 0)")
    case True
    show ?thesis unfolding k using fuel_step_select [OF li0 n True] by simp
  next
    case False
    obtain m where m: "m < ?n" "weight (providers b ! m) = maxWeight b"
      using max_entry [OF wf] by auto
    have "m \<noteq> 0" using False m(2) cw by (cases "m = 0") auto
    then have m0: "0 < m" by simp
    have elig: "currentWeight ?b \<le> weight (providers ?b ! m)" using m(2) cw by simp
    have mlen: "m < length (providers ?b)" using m(1) by simp
    have "\<exists>r. Next_loop_fuel (m - 0) ?b = Some (Inr r)"
      by (rule scan_pass [OF li0 m0 mlen elig])
    then obtain r where "Next_loop_fuel m ?b = Some (Inr r)" by auto
    then have "Next_loop_fuel k ?b = Some (Inr r)"
      using m(1) k by (elim fuel_le) simp
    then show ?thesis unfolding k using fuel_step_skip [OF li0 n False] by simp
  qed
qed

lemma scan_any:
  assumes wf: "wf_balancer b"
    and fuel: "nat (int (length (providers b)) - 1 - lastIndex b) + length (providers b) \<le> k"
  shows "\<exists>r. Next_loop_fuel k b = Some (Inr r)"
  using assms
proof (induction "nat (int (length (providers b)) - 1 - lastIndex b)" arbitrary: b k)
  case 0
  have "lastIndex b < int (length (providers b))" using "0.prems"(1) by (simp add: wf_balancer_def)
  with 0 have "lastIndex b = int (length (providers b)) - 1" by simp
  then obtain r where "Next_loop_fuel (length (providers b)) b = Some (Inr r)"
    using scan_wrap [OF "0.prems"(1)] by auto
  moreover have "length (providers b) \<le> k" using "0.prems"(2) by simp
  ultimately show ?case using fuel_le by blast
next
  case (Suc d)
  let ?n = "length (providers b)"
  let ?b = "advance b"
  have lo: "- 1 \<le> lastIndex b" using Suc.prems(1) by (simp add: wf_balancer_def)
  show ?case
  proof (cases "lastIndex b = - 1")
    case True
    then obtain r where "Next_loop_fuel ?n b = Some (Inr r)"
      using scan_wrap [OF Suc.prems(1)] by auto
    moreover have "?n \<le> k" using Suc.prems(2) by simp
    ultimately show ?thesis using fuel_le by blast
  next
    case False
    then have j0: "0 \<le> lastIndex b" using lo by simp
    then obtain j where j: "lastIndex b = int j" using nonneg_int_cases by blast
    have lt: "Suc j < ?n" using Suc.hyps(2) j by simp
    have li: "lastIndex ?b = int (Suc j)"
      using j lt by (simp add: advance_lastIndex smod_small)
    have wf': "wf_balancer ?b" using Suc.prems(1) by (rule advance_wf)
    have d: "d = nat (int (length (providers ?b)) - 1 - lastIndex ?b)"
      using Suc.hyps(2) li j by simp
    obtain k' where k': "k = Suc k'" using Suc.prems(2) Suc.hyps(2) by (cases k) auto
    have fuel': "nat (int (length (providers ?b)) - 1 - lastIndex ?b) + length (providers ?b) \<le> k'"
      using Suc.prems(2) Suc.hyps(2) li j k' by simp
    have ih: "\<exists>r. Next_loop_fuel k' ?b = Some (Inr r)"
      using Suc.hyps(1) [OF d wf' fuel'] .
    show ?thesis
    proof (cases "currentWeight ?b \<le> weight (providers b ! Suc j)")
      case True
      show ?thesis unfolding k' using fuel_step_select [OF li lt True] by simp
    next
      case False
      show ?thesis unfolding k' using fuel_step_skip [OF li lt False] ih by simp
    qed
  qed
qed

lemma scan_two_passes:
  assumes wf: "wf_balancer b"
  shows "\<exists>r. Next_loop_fuel (2 * length (providers b)) b = Some (Inr r)"
proof -
  have "- 1 \<le> lastIndex b" using wf by (simp add: wf_balancer_def)
  then have "nat (int (length (providers b)) - 1 - lastIndex b) + length (providers b)
      \<le> 2 * length (providers b)"
    by linarith
  then show ?thesis using scan_any [OF wf] by blast
qed

lemma fuel_wf:
  "Next_loop_fuel k b = Some (Inr (p, b')) \<Longrightarrow> wf_balancer b \<Longrightarrow> wf_balancer b'"
proof (induction k arbitrary: b)
  case 0
  then show ?case by simp
next
  case (Suc k)
  have wf': "wf_balancer (advance b)" using Suc.prems(2) by (rule advance_wf)
  show ?case
    using Suc.prems(1) Suc.IH [OF _ wf'] wf'
    by (auto simp: Let_def split: if_splits)
qed

lemma fuel_providers:
  "Next_loop_fuel k b = Some (Inr (p, b')) \<Longrightarrow>
     providers b' = providers b \<and> maxWeight b' = maxWeight b \<and> gcd' b' = gcd' b \<and>
     p \<in> provider ` set (providers b)"
proof (induction k arbitrary: b)
  case 0
  then show ?case by simp
next
  case (Suc k)
  show ?case
    using Suc.prems(1) Suc.IH [of "advance b"]
    by (auto simp: Let_def split: if_splits)
qed

subsection \<open>The cycle of the 3:2:1 balancer\<close>

lemma gcd_go_1_1: "gcd_go 1 1 = 1" by (simp add: gcd_go_eq)

lemma gcd_go_small:
  "gcd_go 3 2 = 1" "gcd_go 3 1 = 1" "gcd_go 2 3 = 1" "gcd_go 2 1 = 1" "gcd_go 1 3 = 1"
  "gcd_go 1 2 = 1"
  by (simp_all add: gcd_go_eq)

lemma mock_name [simp]: "Name (mockProvider n) = n"
  by (simp add: mockProvider_def)

lemma smod_nums [simp]:
  "(0::int) smod 3 = 0" "(1::int) smod 3 = 1" "(2::int) smod 3 = 2" "(3::int) smod 3 = 0"
  by (simp_all add: signed_modulo_int_def)

lemma Next_via_fuel:
  assumes "2 \<le> length (providers b)"
    and "Next_loop_fuel (Suc (Suc (Suc 0))) b \<noteq> None"
  shows "Balancer_Next b =
     (case Next_loop_fuel (Suc (Suc (Suc 0))) b of
        None \<Rightarrow> None
      | Some (Inl e) \<Rightarrow> Some (Inl e)
      | Some (Inr (p, b')) \<Rightarrow> Some (Inr (Some p, b')))"
proof -
  obtain r where r: "Next_loop_fuel (Suc (Suc (Suc 0))) b = Some r"
    using assms(2) by blast
  have loop: "Next_loop b = Some r" using r by (rule fuel_imp_loop)
  have len: "length (providers b) \<noteq> 0" "length (providers b) \<noteq> 1" using assms(1) by auto
  show ?thesis unfolding Balancer_Next_def r loop using len by simp
qed

lemma bal3_inject [simp]:
  "bal3 p0 p1 p2 w0 w1 w2 cw li = bal3 p0 p1 p2 w0 w1 w2 cw' li' \<longleftrightarrow> cw = cw' \<and> li = li'"
  by (auto simp: bal3_def)

lemma on_cycle3_bal3 [simp]:
  "on_cycle3 p0 p1 p2 w0 w1 w2 (bal3 p0 p1 p2 w0 w1 w2 cw li) \<longleftrightarrow>
     (cw = 0 \<and> li = - 1) \<or>
     ((cw = 1 \<or> cw = 2 \<or> cw = 3) \<and>
      ((li = 0 \<and> cw \<le> w0) \<or> (li = 1 \<and> cw \<le> w1) \<or> (li = 2 \<and> cw \<le> w2)))"
  unfolding on_cycle3_def by auto

lemma on_cycle3_cases:
  assumes "on_cycle3 p0 p1 p2 w0 w1 w2 b"
  shows "\<exists>cw li. b = bal3 p0 p1 p2 w0 w1 w2 cw li \<and>
     ((cw = 0 \<and> li = - 1) \<or>
      ((cw = 1 \<or> cw = 2 \<or> cw = 3) \<and>
       ((li = 0 \<and> cw \<le> w0) \<or> (li = 1 \<and> cw \<le> w1) \<or> (li = 2 \<and> cw \<le> w2))))"
  using assms unfolding on_cycle3_def by auto

lemma steps_321:
  "Balancer_Next (bal3 p0 p1 p2 3 2 1 0 (- 1)) =
     Some (Inr (Some p0, bal3 p0 p1 p2 3 2 1 3 0))"
  "Balancer_Next (bal3 p0 p1 p2 3 2 1 1 0) =
     Some (Inr (Some p1, bal3 p0 p1 p2 3 2 1 1 1))"
  "Balancer_Next (bal3 p0 p1 p2 3 2 1 1 1) =
     Some (Inr (Some p2, bal3 p0 p1 p2 3 2 1 1 2))"
  "Balancer_Next (bal3 p0 p1 p2 3 2 1 1 2) =
     Some (Inr (Some p0, bal3 p0 p1 p2 3 2 1 3 0))"
  "Balancer_Next (bal3 p0 p1 p2 3 2 1 2 0) =
     Some (Inr (Some p1, bal3 p0 p1 p2 3 2 1 2 1))"
  "Balancer_Next (bal3 p0 p1 p2 3 2 1 2 1) =
     Some (Inr (Some p0, bal3 p0 p1 p2 3 2 1 1 0))"
  "Balancer_Next (bal3 p0 p1 p2 3 2 1 3 0) =
     Some (Inr (Some p0, bal3 p0 p1 p2 3 2 1 2 0))"
  by (simp_all add: Next_via_fuel bal3_def advance_def Let_def)

lemma steps_312:
  "Balancer_Next (bal3 p0 p1 p2 3 1 2 0 (- 1)) =
     Some (Inr (Some p0, bal3 p0 p1 p2 3 1 2 3 0))"
  "Balancer_Next (bal3 p0 p1 p2 3 1 2 1 0) =
     Some (Inr (Some p1, bal3 p0 p1 p2 3 1 2 1 1))"
  "Balancer_Next (bal3 p0 p1 p2 3 1 2 1 1) =
     Some (Inr (Some p2, bal3 p0 p1 p2 3 1 2 1 2))"
  "Balancer_Next (bal3 p0 p1 p2 3 1 2 1 2) =
     Some (Inr (Some p0, bal3 p0 p1 p2 3 1 2 3 0))"
  "Balancer_Next (bal3 p0 p1 p2 3 1 2 2 0) =
     Some (Inr (Some p2, bal3 p0 p1 p2 3 1 2 2 2))"
  "Balancer_Next (bal3 p0 p1 p2 3 1 2 2 2) =
     Some (Inr (Some p0, bal3 p0 p1 p2 3 1 2 1 0))"
  "Balancer_Next (bal3 p0 p1 p2 3 1 2 3 0) =
     Some (Inr (Some p0, bal3 p0 p1 p2 3 1 2 2 0))"
  by (simp_all add: Next_via_fuel bal3_def advance_def Let_def)

lemma steps_231:
  "Balancer_Next (bal3 p0 p1 p2 2 3 1 0 (- 1)) =
     Some (Inr (Some p1, bal3 p0 p1 p2 2 3 1 3 1))"
  "Balancer_Next (bal3 p0 p1 p2 2 3 1 1 0) =
     Some (Inr (Some p1, bal3 p0 p1 p2 2 3 1 1 1))"
  "Balancer_Next (bal3 p0 p1 p2 2 3 1 1 1) =
     Some (Inr (Some p2, bal3 p0 p1 p2 2 3 1 1 2))"
  "Balancer_Next (bal3 p0 p1 p2 2 3 1 1 2) =
     Some (Inr (Some p1, bal3 p0 p1 p2 2 3 1 3 1))"
  "Balancer_Next (bal3 p0 p1 p2 2 3 1 2 0) =
     Some (Inr (Some p1, bal3 p0 p1 p2 2 3 1 2 1))"
  "Balancer_Next (bal3 p0 p1 p2 2 3 1 2 1) =
     Some (Inr (Some p0, bal3 p0 p1 p2 2 3 1 1 0))"
  "Balancer_Next (bal3 p0 p1 p2 2 3 1 3 1) =
     Some (Inr (Some p0, bal3 p0 p1 p2 2 3 1 2 0))"
  by (simp_all add: Next_via_fuel bal3_def advance_def Let_def)

lemma steps_213:
  "Balancer_Next (bal3 p0 p1 p2 2 1 3 0 (- 1)) =
     Some (Inr (Some p2, bal3 p0 p1 p2 2 1 3 3 2))"
  "Balancer_Next (bal3 p0 p1 p2 2 1 3 1 0) =
     Some (Inr (Some p1, bal3 p0 p1 p2 2 1 3 1 1))"
  "Balancer_Next (bal3 p0 p1 p2 2 1 3 1 1) =
     Some (Inr (Some p2, bal3 p0 p1 p2 2 1 3 1 2))"
  "Balancer_Next (bal3 p0 p1 p2 2 1 3 1 2) =
     Some (Inr (Some p2, bal3 p0 p1 p2 2 1 3 3 2))"
  "Balancer_Next (bal3 p0 p1 p2 2 1 3 2 0) =
     Some (Inr (Some p2, bal3 p0 p1 p2 2 1 3 2 2))"
  "Balancer_Next (bal3 p0 p1 p2 2 1 3 2 2) =
     Some (Inr (Some p0, bal3 p0 p1 p2 2 1 3 1 0))"
  "Balancer_Next (bal3 p0 p1 p2 2 1 3 3 2) =
     Some (Inr (Some p0, bal3 p0 p1 p2 2 1 3 2 0))"
  by (simp_all add: Next_via_fuel bal3_def advance_def Let_def)

lemma steps_132:
  "Balancer_Next (bal3 p0 p1 p2 1 3 2 0 (- 1)) =
     Some (Inr (Some p1, bal3 p0 p1 p2 1 3 2 3 1))"
  "Balancer_Next (bal3 p0 p1 p2 1 3 2 1 0) =
     Some (Inr (Some p1, bal3 p0 p1 p2 1 3 2 1 1))"
  "Balancer_Next (bal3 p0 p1 p2 1 3 2 1 1) =
     Some (Inr (Some p2, bal3 p0 p1 p2 1 3 2 1 2))"
  "Balancer_Next (bal3 p0 p1 p2 1 3 2 1 2) =
     Some (Inr (Some p1, bal3 p0 p1 p2 1 3 2 3 1))"
  "Balancer_Next (bal3 p0 p1 p2 1 3 2 2 1) =
     Some (Inr (Some p2, bal3 p0 p1 p2 1 3 2 2 2))"
  "Balancer_Next (bal3 p0 p1 p2 1 3 2 2 2) =
     Some (Inr (Some p0, bal3 p0 p1 p2 1 3 2 1 0))"
  "Balancer_Next (bal3 p0 p1 p2 1 3 2 3 1) =
     Some (Inr (Some p1, bal3 p0 p1 p2 1 3 2 2 1))"
  by (simp_all add: Next_via_fuel bal3_def advance_def Let_def)

lemma steps_123:
  "Balancer_Next (bal3 p0 p1 p2 1 2 3 0 (- 1)) =
     Some (Inr (Some p2, bal3 p0 p1 p2 1 2 3 3 2))"
  "Balancer_Next (bal3 p0 p1 p2 1 2 3 1 0) =
     Some (Inr (Some p1, bal3 p0 p1 p2 1 2 3 1 1))"
  "Balancer_Next (bal3 p0 p1 p2 1 2 3 1 1) =
     Some (Inr (Some p2, bal3 p0 p1 p2 1 2 3 1 2))"
  "Balancer_Next (bal3 p0 p1 p2 1 2 3 1 2) =
     Some (Inr (Some p2, bal3 p0 p1 p2 1 2 3 3 2))"
  "Balancer_Next (bal3 p0 p1 p2 1 2 3 2 1) =
     Some (Inr (Some p2, bal3 p0 p1 p2 1 2 3 2 2))"
  "Balancer_Next (bal3 p0 p1 p2 1 2 3 2 2) =
     Some (Inr (Some p0, bal3 p0 p1 p2 1 2 3 1 0))"
  "Balancer_Next (bal3 p0 p1 p2 1 2 3 3 2) =
     Some (Inr (Some p1, bal3 p0 p1 p2 1 2 3 2 1))"
  by (simp_all add: Next_via_fuel bal3_def advance_def Let_def)

lemmas bal3_steps = steps_321 steps_312 steps_231 steps_213 steps_132 steps_123

lemma bal3_step:
  assumes w: "weights321 w0 w1 w2" and c: "on_cycle3 p0 p1 p2 w0 w1 w2 b"
  shows "\<exists>p b'. Balancer_Next b = Some (Inr (Some p, b')) \<and> on_cycle3 p0 p1 p2 w0 w1 w2 b'"
proof -
  obtain cw li where b: "b = bal3 p0 p1 p2 w0 w1 w2 cw li"
    and s: "(cw = 0 \<and> li = - 1) \<or>
      ((cw = 1 \<or> cw = 2 \<or> cw = 3) \<and>
       ((li = 0 \<and> cw \<le> w0) \<or> (li = 1 \<and> cw \<le> w1) \<or> (li = 2 \<and> cw \<le> w2)))"
    using on_cycle3_cases [OF c] by (elim exE conjE) (rule that)
  show ?thesis
    using w s unfolding b weights321_def
    by (elim disjE conjE; simp add: bal3_steps)
qed

lemma bal3_calls:
  assumes w: "weights321 w0 w1 w2" and c: "on_cycle3 p0 p1 p2 w0 w1 w2 b"
  shows "\<exists>sel b'. Next_calls k b = Some (sel, b') \<and> on_cycle3 p0 p1 p2 w0 w1 w2 b'"
  using c
proof (induction k arbitrary: b)
  case 0
  then show ?case by simp
next
  case (Suc k)
  obtain p b1 where s: "Balancer_Next b = Some (Inr (Some p, b1))"
    "on_cycle3 p0 p1 p2 w0 w1 w2 b1"
    using bal3_step [OF w Suc.prems] by (elim exE conjE) (rule that)
  obtain sel b2 where "Next_calls k b1 = Some (sel, b2)" "on_cycle3 p0 p1 p2 w0 w1 w2 b2"
    using Suc.IH [OF s(2)] by (elim exE conjE) (rule that)
  then show ?case using s by simp
qed

lemma Next_calls_length: "Next_calls k b = Some (sel, b') \<Longrightarrow> length sel = k"
proof (induction k arbitrary: b sel)
  case 0
  then show ?case by simp
next
  case (Suc k)
  then show ?case
    by (auto split: option.splits sum.splits)
qed

lemma Next_calls_add:
  "Next_calls (j + k) b =
     (case Next_calls j b of
        None \<Rightarrow> None
      | Some (s1, b1) \<Rightarrow>
          (case Next_calls k b1 of None \<Rightarrow> None | Some (s2, b2) \<Rightarrow> Some (s1 @ s2, b2)))"
proof (induction j arbitrary: b)
  case 0
  then show ?case by (simp split: option.splits)
next
  case (Suc j)
  show ?case
  proof (cases "Balancer_Next b")
    case None
    then show ?thesis by simp
  next
    case (Some r)
    show ?thesis
    proof (cases r)
      case (Inl e)
      then show ?thesis using Some by simp
    next
      case (Inr pb)
      obtain p b1 where pb: "pb = (p, b1)" by (cases pb)
      show ?thesis using Some Inr pb Suc.IH [of b1]
        by (simp split: option.splits)
    qed
  qed
qed

lemma names_append: "names (xs @ ys) = names xs @ names ys"
  by (simp add: names_def)

lemma has_run3_at:
  "has_run3 x xs \<Longrightarrow> \<exists>i. i + 3 \<le> length xs \<and> take 3 (drop i xs) = [x, x, x]"
proof (induction x xs rule: has_run3.induct)
  case (1 x a b c xs)
  show ?case
  proof (cases "a = x \<and> b = x \<and> c = x")
    case True
    then have "0 + 3 \<le> length (a # b # c # xs) \<and> take 3 (drop 0 (a # b # c # xs)) = [x, x, x]"
      by simp
    then show ?thesis by blast
  next
    case False
    then have "has_run3 x (b # c # xs)" using "1.prems" by auto
    then obtain i where "i + 3 \<le> length (b # c # xs)" "take 3 (drop i (b # c # xs)) = [x, x, x]"
      using "1.IH" by blast
    then have "Suc i + 3 \<le> length (a # b # c # xs) \<and>
        take 3 (drop (Suc i) (a # b # c # xs)) = [x, x, x]" by simp
    then show ?thesis by blast
  qed
qed simp_all

lemma bal3_six:
  assumes w: "weights321 w0 w1 w2" and c: "on_cycle3 p0 p1 p2 w0 w1 w2 b"
    and d: "Name p0 \<noteq> Name p1" "Name p0 \<noteq> Name p2" "Name p1 \<noteq> Name p2"
  shows "\<exists>sel b'. Next_calls 6 b = Some (sel, b') \<and> on_cycle3 p0 p1 p2 w0 w1 w2 b' \<and>
           int (count_list (names sel) (Some (Name p0))) = w0 \<and>
           int (count_list (names sel) (Some (Name p1))) = w1 \<and>
           int (count_list (names sel) (Some (Name p2))) = w2"
proof -
  obtain cw li where b: "b = bal3 p0 p1 p2 w0 w1 w2 cw li"
    and s: "(cw = 0 \<and> li = - 1) \<or>
      ((cw = 1 \<or> cw = 2 \<or> cw = 3) \<and>
       ((li = 0 \<and> cw \<le> w0) \<or> (li = 1 \<and> cw \<le> w1) \<or> (li = 2 \<and> cw \<le> w2)))"
    using on_cycle3_cases [OF c] by (elim exE conjE) (rule that)
  have d': "Name p1 \<noteq> Name p0" "Name p2 \<noteq> Name p0" "Name p2 \<noteq> Name p1"
    using d by simp_all
  show ?thesis
    using w s unfolding b weights321_def
    by (elim disjE conjE; simp add: eval_nat_numeral bal3_steps names_def d d')
qed

lemma bal3_three:
  assumes w: "weights321 w0 w1 w2" and c: "on_cycle3 p0 p1 p2 w0 w1 w2 b"
    and d: "Name p0 \<noteq> Name p1" "Name p0 \<noteq> Name p2" "Name p1 \<noteq> Name p2"
    and calls: "Next_calls 3 b = Some (sel, b')"
  shows "(w0 = 3 \<longrightarrow> names sel \<noteq> [Some (Name p0), Some (Name p0), Some (Name p0)]) \<and>
         (w1 = 3 \<longrightarrow> names sel \<noteq> [Some (Name p1), Some (Name p1), Some (Name p1)]) \<and>
         (w2 = 3 \<longrightarrow> names sel \<noteq> [Some (Name p2), Some (Name p2), Some (Name p2)])"
proof -
  obtain cw li where b: "b = bal3 p0 p1 p2 w0 w1 w2 cw li"
    and s: "(cw = 0 \<and> li = - 1) \<or>
      ((cw = 1 \<or> cw = 2 \<or> cw = 3) \<and>
       ((li = 0 \<and> cw \<le> w0) \<or> (li = 1 \<and> cw \<le> w1) \<or> (li = 2 \<and> cw \<le> w2)))"
    using on_cycle3_cases [OF c] by (elim exE conjE) (rule that)
  have d': "Name p1 \<noteq> Name p0" "Name p2 \<noteq> Name p0" "Name p2 \<noteq> Name p1"
    using d by simp_all
  show ?thesis
    using w s calls unfolding b weights321_def
    by (elim disjE conjE; auto simp: eval_nat_numeral bal3_steps names_def d d')
qed

lemma bal3_sixfold:
  assumes w: "weights321 w0 w1 w2" and c: "on_cycle3 p0 p1 p2 w0 w1 w2 b"
    and d: "Name p0 \<noteq> Name p1" "Name p0 \<noteq> Name p2" "Name p1 \<noteq> Name p2"
  shows "\<exists>sel b'. Next_calls (6 * n) b = Some (sel, b') \<and> on_cycle3 p0 p1 p2 w0 w1 w2 b' \<and>
           int (count_list (names sel) (Some (Name p0))) = w0 * int n \<and>
           int (count_list (names sel) (Some (Name p1))) = w1 * int n \<and>
           int (count_list (names sel) (Some (Name p2))) = w2 * int n"
  using c
proof (induction n arbitrary: b)
  case 0
  then show ?case by (simp add: names_def)
next
  case (Suc n)
  obtain s1 b1 where one: "Next_calls 6 b = Some (s1, b1)" "on_cycle3 p0 p1 p2 w0 w1 w2 b1"
    "int (count_list (names s1) (Some (Name p0))) = w0"
    "int (count_list (names s1) (Some (Name p1))) = w1"
    "int (count_list (names s1) (Some (Name p2))) = w2"
    using bal3_six [OF w Suc.prems d] by (elim exE conjE) (rule that)
  obtain s2 b2 where more: "Next_calls (6 * n) b1 = Some (s2, b2)"
    "on_cycle3 p0 p1 p2 w0 w1 w2 b2"
    "int (count_list (names s2) (Some (Name p0))) = w0 * int n"
    "int (count_list (names s2) (Some (Name p1))) = w1 * int n"
    "int (count_list (names s2) (Some (Name p2))) = w2 * int n"
    using Suc.IH [OF one(2)] by (elim exE conjE) (rule that)
  have "6 * Suc n = 6 + 6 * n" by simp
  then have "Next_calls (6 * Suc n) b = Some (s1 @ s2, b2)"
    using one(1) more(1) by (simp only: Next_calls_add option.case prod.case)
  then show ?case using one more by (simp add: names_append algebra_simps)
qed

lemma bal3_no_run:
  assumes w: "weights321 w0 w1 w2" and c: "on_cycle3 p0 p1 p2 w0 w1 w2 b"
    and d: "Name p0 \<noteq> Name p1" "Name p0 \<noteq> Name p2" "Name p1 \<noteq> Name p2"
    and calls: "Next_calls k b = Some (sel, b')"
    and heavy: "(w0 = 3 \<and> x = Name p0) \<or> (w1 = 3 \<and> x = Name p1) \<or> (w2 = 3 \<and> x = Name p2)"
  shows "\<not> has_run3 (Some x) (names sel)"
proof
  assume "has_run3 (Some x) (names sel)"
  then have "\<exists>i. i + 3 \<le> length (names sel) \<and>
      take 3 (drop i (names sel)) = [Some x, Some x, Some x]"
    by (rule has_run3_at)
  then obtain i where i: "i + 3 \<le> length (names sel)"
    "take 3 (drop i (names sel)) = [Some x, Some x, Some x]"
    by (elim exE conjE) (rule that)
  have len: "length sel = k" using calls by (rule Next_calls_length)
  define e where "e = k - i - 3"
  have k: "i + (3 + e) = k" using i(1) len by (simp add: names_def e_def)
  obtain s1 b1 where c1: "Next_calls i b = Some (s1, b1)" "on_cycle3 p0 p1 p2 w0 w1 w2 b1"
    using bal3_calls [OF w c, of i] by (elim exE conjE) (rule that)
  obtain s2 b2 where c2: "Next_calls 3 b1 = Some (s2, b2)" "on_cycle3 p0 p1 p2 w0 w1 w2 b2"
    using bal3_calls [OF w c1(2), of 3] by (elim exE conjE) (rule that)
  obtain s3 b3 where c3: "Next_calls e b2 = Some (s3, b3)"
    using bal3_calls [OF w c2(2), of e] by (elim exE conjE) (rule that)
  have "Next_calls (i + (3 + e)) b = Some (s1 @ s2 @ s3, b3)"
    using c1(1) c2(1) c3 by (simp only: Next_calls_add option.case prod.case)
  then have sel: "sel = s1 @ s2 @ s3" using calls unfolding k by simp
  have l1: "length s1 = i" using c1(1) by (rule Next_calls_length)
  have l2: "length s2 = 3" using c2(1) by (rule Next_calls_length)
  have "take 3 (drop i (names sel)) = names s2"
    using l1 l2 by (simp add: sel names_def drop_map take_map)
  then have "names s2 = [Some x, Some x, Some x]" using i(2) by simp
  then show False using bal3_three [OF w c1(2) d c2(1)] heavy by auto
qed

lemma bal3_run:
  assumes w: "weights321 w0 w1 w2"
    and d: "Name p0 \<noteq> Name p1" "Name p0 \<noteq> Name p2" "Name p1 \<noteq> Name p2"
    and heavy: "(w0 = 3 \<and> x = Name p0) \<or> (w1 = 3 \<and> x = Name p1) \<or> (w2 = 3 \<and> x = Name p2)"
  shows "\<exists>pre b1 picks b2.
     Next_calls k (bal3 p0 p1 p2 w0 w1 w2 0 (- 1)) = Some (pre, b1) \<and>
     Next_calls 60 b1 = Some (picks, b2) \<and>
     int (count_list (names picks) (Some (Name p0))) = 10 * w0 \<and>
     int (count_list (names picks) (Some (Name p1))) = 10 * w1 \<and>
     int (count_list (names picks) (Some (Name p2))) = 10 * w2 \<and>
     \<not> has_run3 (Some x) (names (pre @ picks))"
proof -
  have start: "on_cycle3 p0 p1 p2 w0 w1 w2 (bal3 p0 p1 p2 w0 w1 w2 0 (- 1))" by simp
  obtain pre b1 where pre: "Next_calls k (bal3 p0 p1 p2 w0 w1 w2 0 (- 1)) = Some (pre, b1)"
    "on_cycle3 p0 p1 p2 w0 w1 w2 b1"
    using bal3_calls [OF w start, of k] by (elim exE conjE) (rule that)
  obtain picks b2 where picks: "Next_calls (6 * 10) b1 = Some (picks, b2)"
    "int (count_list (names picks) (Some (Name p0))) = w0 * int 10"
    "int (count_list (names picks) (Some (Name p1))) = w1 * int 10"
    "int (count_list (names picks) (Some (Name p2))) = w2 * int 10"
    using bal3_sixfold [OF w pre(2) d, of 10] by (elim exE conjE) (rule that)
  have sixty: "Next_calls 60 b1 = Some (picks, b2)" using picks(1) by simp
  have "Next_calls (k + 60) (bal3 p0 p1 p2 w0 w1 w2 0 (- 1)) = Some (pre @ picks, b2)"
    using pre(1) sixty by (simp only: Next_calls_add option.case prod.case)
  then have norun: "\<not> has_run3 (Some x) (names (pre @ picks))"
    using heavy by (rule bal3_no_run [OF w start d])
  show ?thesis
    by (rule exI [of _ pre], rule exI [of _ b1], rule exI [of _ picks], rule exI [of _ b2])
      (simp add: pre(1) sixty picks(2,3,4) norun)
qed

lemma NewBalancer_bal3:
  assumes "weights321 w0 w1 w2"
    and "ws (Name p0) = Some w0" "ws (Name p1) = Some w1" "ws (Name p2) = Some w2"
  shows "NewBalancer [p0, p1, p2] ws = bal3 p0 p1 p2 w0 w1 w2 0 (- 1)"
  using assms unfolding weights321_def
  by (elim disjE conjE; simp add: NewBalancer_def wrap_provider_def lookup_weight_def
      gcd_go_small gcd_go_1_1 bal3_def)

lemma Next_wf:
  assumes wf: "wf_balancer b"
  shows "\<exists>p b' r. Balancer_Next b = Some (Inr (Some p, b')) \<and> wf_balancer b' \<and>
           providers b' = providers b \<and>
           Next_loop_fuel (2 * length (providers b)) b = Some (Inr r) \<and>
           Next_loop b = Some (Inr r)"
proof -
  obtain r where r: "Next_loop_fuel (2 * length (providers b)) b = Some (Inr r)"
    using scan_two_passes [OF wf] by blast
  obtain p b' where pb: "r = (p, b')" by (cases r)
  have loop: "Next_loop b = Some (Inr (p, b'))" using r pb by (simp add: fuel_imp_loop)
  have wf': "wf_balancer b'" using r pb wf fuel_wf by blast
  have same: "providers b' = providers b" using r pb fuel_providers by blast
  have ne: "providers b \<noteq> []" using wf by (simp add: wf_balancer_def)
  show ?thesis
  proof (cases "length (providers b) = 1")
    case True
    then show ?thesis using wf r loop pb by (simp add: Balancer_Next_def)
  next
    case False
    then show ?thesis using ne loop r pb wf' same by (simp add: Balancer_Next_def)
  qed
qed

lemma Next_calls_wf:
  assumes "wf_balancer b"
  shows "\<exists>sel b'. Next_calls k b = Some (sel, b') \<and> wf_balancer b' \<and>
           providers b' = providers b"
  using assms
proof (induction k arbitrary: b)
  case 0
  then show ?case by simp
next
  case (Suc k)
  obtain p b1 where s: "Balancer_Next b = Some (Inr (Some p, b1))" "wf_balancer b1"
    "providers b1 = providers b"
    using Next_wf [OF Suc.prems] by blast
  obtain sel b2 where "Next_calls k b1 = Some (sel, b2)" "wf_balancer b2"
    "providers b2 = providers b1"
    using Suc.IH [OF s(2)] by blast
  then show ?case using s by simp
qed

lemma NewBalancer_providers: "map provider (providers (NewBalancer ps ws)) = ps"
proof (cases ps)
  case Nil
  then show ?thesis by (simp add: NewBalancer_def)
next
  case (Cons p rest)
  have "map provider (map (wrap_provider ws) ps) = ps"
    by (induction ps) (simp_all add: wrap_provider_def Let_def)
  then show ?thesis
    by (simp add: NewBalancer_def Cons split: prod.splits)
qed

lemma NewBalancer_weights:
  "map weight (providers (NewBalancer ps ws)) =
     map (\<lambda>p. if lookup_weight ws (Name p) \<le> 0 then 1 else lookup_weight ws (Name p)) ps"
proof (cases ps)
  case Nil
  then show ?thesis by (simp add: NewBalancer_def)
next
  case (Cons p rest)
  have "map weight (map (wrap_provider ws) ps) =
     map (\<lambda>p. if lookup_weight ws (Name p) \<le> 0 then 1 else lookup_weight ws (Name p)) ps"
    by (induction ps) (simp_all add: wrap_provider_def Let_def)
  then show ?thesis
    by (simp add: NewBalancer_def Cons split: prod.splits)
qed

lemma NewBalancer_length: "length (providers (NewBalancer ps ws)) = length ps"
  using NewBalancer_providers [of ps ws] by (metis length_map)

subsection \<open>The claims about the balancer\<close>

text \<open>
  C3. A balancer constructed with three backends \<open>h\<close>, \<open>m\<close> and \<open>l\<close>, in any of the six
  orders, under whose names the weights 3, 2 and 1 are configured: after any number \<open>k\<close>
  of calls of \<open>Next\<close>, the next 60 calls select the weight-3 backend between 25 and 35
  times, the weight-2 backend between 15 and 25 times and the weight-1 backend between 5
  and 15 times (the counts are in fact exactly 30, 20 and 10), and nowhere in the whole
  run is the weight-3 backend selected three times in a row. The selections are
  counted by name, as the test does; the three names differ because the weights do.
\<close>

theorem weighted_round_robin_3_2_1:
  assumes h: "ws (Name h) = Some 3" and m: "ws (Name m) = Some 2" and l: "ws (Name l) = Some 1"
    and order: "ps \<in> {[h, m, l], [h, l, m], [m, h, l], [m, l, h], [l, h, m], [l, m, h]}"
  shows "\<exists>pre b1 picks b2.
     Next_calls k (NewBalancer ps ws) = Some (pre, b1) \<and>
     Next_calls 60 b1 = Some (picks, b2) \<and>
     25 \<le> count_list (names picks) (Some (Name h)) \<and>
     count_list (names picks) (Some (Name h)) \<le> 35 \<and>
     15 \<le> count_list (names picks) (Some (Name m)) \<and>
     count_list (names picks) (Some (Name m)) \<le> 25 \<and>
     5 \<le> count_list (names picks) (Some (Name l)) \<and>
     count_list (names picks) (Some (Name l)) \<le> 15 \<and>
     \<not> has_run3 (Some (Name h)) (names (pre @ picks))"
proof -
  have d: "Name h \<noteq> Name m" "Name h \<noteq> Name l" "Name m \<noteq> Name l"
    "Name m \<noteq> Name h" "Name l \<noteq> Name h" "Name l \<noteq> Name m"
    using h m l by auto
  have main: "\<exists>pre b1 picks b2.
     Next_calls k (NewBalancer [p0, p1, p2] ws) = Some (pre, b1) \<and>
     Next_calls 60 b1 = Some (picks, b2) \<and>
     int (count_list (names picks) (Some (Name p0))) = 10 * w0 \<and>
     int (count_list (names picks) (Some (Name p1))) = 10 * w1 \<and>
     int (count_list (names picks) (Some (Name p2))) = 10 * w2 \<and>
     \<not> has_run3 (Some (Name h)) (names (pre @ picks))"
    if "weights321 w0 w1 w2" "ws (Name p0) = Some w0" "ws (Name p1) = Some w1"
      "ws (Name p2) = Some w2" "Name p0 \<noteq> Name p1" "Name p0 \<noteq> Name p2" "Name p1 \<noteq> Name p2"
      "(w0 = 3 \<and> Name h = Name p0) \<or> (w1 = 3 \<and> Name h = Name p1) \<or>
       (w2 = 3 \<and> Name h = Name p2)"
    for p0 p1 p2 w0 w1 w2
    unfolding NewBalancer_bal3 [OF that(1,2,3,4)]
    by (rule bal3_run [OF that(1,5,6,7,8)])
  consider "ps = [h, m, l]" | "ps = [h, l, m]" | "ps = [m, h, l]" | "ps = [m, l, h]"
    | "ps = [l, h, m]" | "ps = [l, m, h]"
    using order by auto
  then have "\<exists>pre b1 picks b2.
     Next_calls k (NewBalancer ps ws) = Some (pre, b1) \<and>
     Next_calls 60 b1 = Some (picks, b2) \<and>
     count_list (names picks) (Some (Name h)) = 30 \<and>
     count_list (names picks) (Some (Name m)) = 20 \<and>
     count_list (names picks) (Some (Name l)) = 10 \<and>
     \<not> has_run3 (Some (Name h)) (names (pre @ picks))"
  proof cases
    case 1
    show ?thesis unfolding 1
      using main [of 3 2 1 h m l] h m l d by (simp add: weights321_def conj_ac)
  next
    case 2
    show ?thesis unfolding 2
      using main [of 3 1 2 h l m] h m l d by (simp add: weights321_def conj_ac)
  next
    case 3
    show ?thesis unfolding 3
      using main [of 2 3 1 m h l] h m l d by (simp add: weights321_def conj_ac)
  next
    case 4
    show ?thesis unfolding 4
      using main [of 2 1 3 m l h] h m l d by (simp add: weights321_def conj_ac)
  next
    case 5
    show ?thesis unfolding 5
      using main [of 1 3 2 l h m] h m l d by (simp add: weights321_def conj_ac)
  next
    case 6
    show ?thesis unfolding 6
      using main [of 1 2 3 l m h] h m l d by (simp add: weights321_def conj_ac)
  qed
  then obtain pre b1 picks b2 where r:
    "Next_calls k (NewBalancer ps ws) = Some (pre, b1)"
    "Next_calls 60 b1 = Some (picks, b2)"
    "count_list (names picks) (Some (Name h)) = 30"
    "count_list (names picks) (Some (Name m)) = 20"
    "count_list (names picks) (Some (Name l)) = 10"
    "\<not> has_run3 (Some (Name h)) (names (pre @ picks))"
    by (elim exE conjE) (rule that)
  show ?thesis
    by (rule exI [of _ pre], rule exI [of _ b1], rule exI [of _ picks], rule exI [of _ b2])
      (simp add: r)
qed

theorem weighted_round_robin_3_2_1_witness:
  "test_weights ''heavy'' = Some 3 \<and> test_weights ''medium'' = Some 2 \<and>
   test_weights ''light'' = Some 1 \<and>
   test_providers = [mockProvider ''heavy'', mockProvider ''medium'', mockProvider ''light''] \<and>
   (\<exists>pre b1 picks b2.
     Next_calls 7 (NewBalancer test_providers test_weights) = Some (pre, b1) \<and>
     Next_calls 60 b1 = Some (picks, b2) \<and>
     25 \<le> count_list (names picks) (Some ''heavy'') \<and>
     count_list (names picks) (Some ''heavy'') \<le> 35 \<and>
     15 \<le> count_list (names picks) (Some ''medium'') \<and>
     count_list (names picks) (Some ''medium'') \<le> 25 \<and>
     5 \<le> count_list (names picks) (Some ''light'') \<and>
     count_list (names picks) (Some ''light'') \<le> 15 \<and>
     \<not> has_run3 (Some ''heavy'') (names (pre @ picks))) \<and>
   (\<exists>pre b1 picks b2.
     Next_calls 7 (NewBalancer [mockProvider ''light'', mockProvider ''medium'',
                                mockProvider ''heavy''] test_weights) = Some (pre, b1) \<and>
     Next_calls 60 b1 = Some (picks, b2) \<and>
     25 \<le> count_list (names picks) (Some ''heavy'') \<and>
     count_list (names picks) (Some ''heavy'') \<le> 35 \<and>
     15 \<le> count_list (names picks) (Some ''medium'') \<and>
     count_list (names picks) (Some ''medium'') \<le> 25 \<and>
     5 \<le> count_list (names picks) (Some ''light'') \<and>
     count_list (names picks) (Some ''light'') \<le> 15 \<and>
     \<not> has_run3 (Some ''heavy'') (names (pre @ picks)))"
  using weighted_round_robin_3_2_1 [where h = "mockProvider ''heavy''"
      and m = "mockProvider ''medium''" and l = "mockProvider ''light''"
      and ws = test_weights and ps = test_providers and k = 7]
    weighted_round_robin_3_2_1 [where h = "mockProvider ''heavy''"
      and m = "mockProvider ''medium''" and l = "mockProvider ''light''"
      and ws = test_weights
      and ps = "[mockProvider ''light'', mockProvider ''medium'', mockProvider ''heavy'']"
      and k = 7]
  by (simp add: test_weights_def test_providers_def)

text \<open>
  C9. A balancer constructed with no backend returns \<open>nil\<close> from \<open>Next\<close>, on every call,
  without a panic; a balancer constructed with exactly one backend returns that backend
  on each of any number \<open>k\<close> of calls; and \<open>NewBalancer\<close> keeps the backends in order
  and gives each the weight configured under its name, replaced by 1 when that weight is
  zero, negative or missing.
\<close>

theorem balancer_special_cases:
  "Balancer_Next (NewBalancer [] ws) = Some (Inr (None, NewBalancer [] ws)) \<and>
   Next_calls k (NewBalancer [] ws) = Some (replicate k None, NewBalancer [] ws) \<and>
   Next_calls k (NewBalancer [p] ws) = Some (replicate k (Some p), NewBalancer [p] ws) \<and>
   map provider (providers (NewBalancer ps ws)) = ps \<and>
   map weight (providers (NewBalancer ps ws)) =
     map (\<lambda>p. if lookup_weight ws (Name p) \<le> 0 then 1 else lookup_weight ws (Name p)) ps"
proof -
  have none: "Balancer_Next (NewBalancer [] ws) = Some (Inr (None, NewBalancer [] ws))"
    by (simp add: Balancer_Next_def NewBalancer_def)
  have calls0: "Next_calls k (NewBalancer [] ws) = Some (replicate k None, NewBalancer [] ws)"
    by (induction k) (simp_all add: none)
  have one: "Balancer_Next (NewBalancer [p] ws) = Some (Inr (Some p, NewBalancer [p] ws))"
    by (simp add: Balancer_Next_def NewBalancer_def wrap_provider_def Let_def)
  have calls1: "Next_calls k (NewBalancer [p] ws) = Some (replicate k (Some p), NewBalancer [p] ws)"
    by (induction k) (simp_all add: one)
  show ?thesis
    using none calls0 calls1 NewBalancer_providers [of ps ws] NewBalancer_weights [of ps ws]
    by simp
qed

text \<open>
  C10. For a balancer constructed from a non-empty provider list, in the state reached
  after any number \<open>k\<close> of calls of \<open>Next\<close> (all of which return a provider): some
  entry has the maximal weight, the current weight does not exceed it, and the next call
  returns a provider, its scan loop finding an eligible entry within
  \<open>2 * length ps\<close> iterations, that is two passes over the provider list.
\<close>

theorem Next_terminates_within_two_passes:
  assumes "ps \<noteq> []"
  shows "\<exists>sel b p b' r.
     Next_calls k (NewBalancer ps ws) = Some (sel, b) \<and>
     (\<exists>wp \<in> set (providers b). weight wp = maxWeight b) \<and>
     currentWeight b \<le> maxWeight b \<and>
     Balancer_Next b = Some (Inr (Some p, b')) \<and>
     Next_loop_fuel (2 * length ps) b = Some (Inr r) \<and>
     Next_loop b = Some (Inr r)"
proof -
  have wf: "wf_balancer (NewBalancer ps ws)" using assms by (rule NewBalancer_wf)
  obtain sel b where calls: "Next_calls k (NewBalancer ps ws) = Some (sel, b)"
    "wf_balancer b" "providers b = providers (NewBalancer ps ws)"
    using Next_calls_wf [OF wf, of k] by (elim exE conjE) (rule that)
  have len: "length (providers b) = length ps"
    using calls(3) by (simp add: NewBalancer_length)
  obtain p b' r where nxt: "Balancer_Next b = Some (Inr (Some p, b'))"
    "Next_loop_fuel (2 * length (providers b)) b = Some (Inr r)"
    "Next_loop b = Some (Inr r)"
    using Next_wf [OF calls(2)] by (elim exE conjE) (rule that)
  have "(\<exists>wp \<in> set (providers b). weight wp = maxWeight b) \<and> currentWeight b \<le> maxWeight b"
    using calls(2) by (simp add: wf_balancer_def)
  then show ?thesis using calls(1) nxt len by auto
qed

theorem Next_terminates_within_two_passes_witness:
  "two_mocks \<noteq> [] \<and>
   (\<exists>sel b p b' r.
     Next_calls 3 (NewBalancer two_mocks [''a'' \<mapsto> 2]) = Some (sel, b) \<and>
     (\<exists>wp \<in> set (providers b). weight wp = maxWeight b) \<and>
     currentWeight b \<le> maxWeight b \<and>
     Balancer_Next b = Some (Inr (Some p, b')) \<and>
     Next_loop_fuel (2 * length two_mocks) b = Some (Inr r) \<and>
     Next_loop b = Some (Inr r))"
proof -
  have ne: "two_mocks \<noteq> []" by (simp add: two_mocks_def)
  show ?thesis
    using ne Next_terminates_within_two_passes [OF ne, of 3 "[''a'' \<mapsto> 2]"] by (intro conjI)
qed

section \<open>The router: one attempt per call\<close>

lemma Next_member:
  assumes wf: "wf_balancer b"
  shows "\<exists>p b'. Balancer_Next b = Some (Inr (Some p, b')) \<and> p \<in> provider ` set (providers b)"
proof -
  obtain p b' r where nxt: "Balancer_Next b = Some (Inr (Some p, b'))"
    "Next_loop b = Some (Inr r)" "Next_loop_fuel (2 * length (providers b)) b = Some (Inr r)"
    using Next_wf [OF wf] by (elim exE conjE) (rule that)
  have ne: "providers b \<noteq> []" using wf by (simp add: wf_balancer_def)
  show ?thesis
  proof (cases "length (providers b) = 1")
    case True
    then have "p = provider (providers b ! 0)" using nxt(1) by (auto simp: Balancer_Next_def)
    moreover have "providers b ! 0 \<in> set (providers b)" using ne by simp
    ultimately show ?thesis using nxt(1) by blast
  next
    case False
    obtain p' b'' where r: "r = (p', b'')" by (cases r)
    have "p' \<in> provider ` set (providers b)" using nxt(3) r fuel_providers by blast
    moreover have "p = p'" using nxt(1,2) r False ne by (simp add: Balancer_Next_def)
    ultimately show ?thesis using nxt(1) by blast
  qed
qed

lemma reachable_Next:
  assumes "ps \<noteq> []" and "Next_calls k (NewBalancer ps ws) = Some (sel, b)"
  shows "\<exists>p b'. Balancer_Next b = Some (Inr (Some p, b')) \<and> p \<in> set ps"
proof -
  have wf: "wf_balancer (NewBalancer ps ws)" using assms(1) by (rule NewBalancer_wf)
  obtain sel' b1 where "Next_calls k (NewBalancer ps ws) = Some (sel', b1)" "wf_balancer b1"
    "providers b1 = providers (NewBalancer ps ws)"
    using Next_calls_wf [OF wf, of k] by (elim exE conjE) (rule that)
  then have b: "wf_balancer b" "providers b = providers (NewBalancer ps ws)"
    using assms(2) by simp_all
  obtain p b' where nxt: "Balancer_Next b = Some (Inr (Some p, b'))"
    "p \<in> provider ` set (providers b)"
    using Next_member [OF b(1)] by (elim exE conjE) (rule that)
  have "provider ` set (providers b) = set ps"
    using b(2) NewBalancer_providers [of ps ws] by (metis set_map)
  then show ?thesis using nxt by blast
qed

lemma Next_first_of_two:
  "Balancer_Next (NewBalancer [p1, p2] Map.empty) =
     Some (Inr (Some p1, (NewBalancer [p1, p2] Map.empty)\<lparr>lastIndex := 0, currentWeight := 1\<rparr>))"
proof -
  have nb: "NewBalancer [p1, p2] Map.empty =
      \<lparr>providers = [\<lparr>provider = p1, weight = 1\<rparr>, \<lparr>provider = p2, weight = 1\<rparr>],
       currentWeight = 0, maxWeight = 1, gcd' = 1, lastIndex = - 1\<rparr>"
    by (simp add: NewBalancer_def wrap_provider_def lookup_weight_def gcd_go_1_1)
  have "Next_loop_fuel (Suc 0) (NewBalancer [p1, p2] Map.empty) =
      Some (Inr (p1, (NewBalancer [p1, p2] Map.empty)\<lparr>lastIndex := 0, currentWeight := 1\<rparr>))"
    by (simp add: nb advance_def Let_def)
  then have "Next_loop (NewBalancer [p1, p2] Map.empty) =
      Some (Inr (p1, (NewBalancer [p1, p2] Map.empty)\<lparr>lastIndex := 0, currentWeight := 1\<rparr>))"
    by (rule fuel_imp_loop)
  then show ?thesis by (simp add: Balancer_Next_def nb)
qed

text \<open>
  A call that succeeds on a fresh router over two providers: the first provider answers
  and its success counter goes from nothing to 1.
\<close>

lemma successful_Complete_trace:
  "(case Router_Complete mock_router None ''decide'' of
      Some (Inr (res, r', evs)) \<Rightarrow>
        res = Inr \<lparr>Content = ''mock'', Provider' = ''a'', Model = '''', Latency = 0,
                   TokensIn = 0, TokensOut = 0\<rparr> \<and>
        evs = [Wait 1, Call ''a''] \<and>
        successCount r' = [''a'' \<mapsto> 1] \<and> errorCount r' = Map.empty \<and>
        lastError r' = Map.empty \<and>
        balancer r' = (balancer mock_router)\<lparr>lastIndex := 0, currentWeight := 1\<rparr>
    | _ \<Rightarrow> False)"
  by (simp add: Router_Complete_def mock_router_def fresh_Router_def two_mocks_def
      Next_first_of_two mockProvider_def recordSuccess_def counter_def)

subsection \<open>The claims about the router\<close>

text \<open>
  C1, as amended. For a router whose balancer was constructed from a non-empty provider
  list and has served any number of calls: \<open>Complete\<close> selects one backend of the list,
  and when that backend fails, with whatever error, the router has waited for admission,
  has called that backend once and nothing else (no sleep, no second attempt, no other
  backend), records the error for that backend (its error counter is one higher, its
  last error is the message of the error, the success counters are as before) and
  returns it.
\<close>

theorem Complete_returns_first_failure:
  assumes "ps \<noteq> []" and "Next_calls k (NewBalancer ps ws) = Some (sel, balancer r)"
  shows "\<exists>p \<in> set ps. \<exists>b'.
     Balancer_Next (balancer r) = Some (Inr (Some p, b')) \<and>
     (\<forall>e. Complete p ctx q = Inl e \<longrightarrow>
        Router_Complete r ctx q =
          Some (Inr (Inl e, recordError (r\<lparr>balancer := b'\<rparr>) (Name p) e,
                     [Wait 1, Call (Name p)])) \<and>
        errorCount (recordError (r\<lparr>balancer := b'\<rparr>) (Name p) e) (Name p) =
          Some ((case errorCount r (Name p) of None \<Rightarrow> 0 | Some n \<Rightarrow> n) + 1) \<and>
        lastError (recordError (r\<lparr>balancer := b'\<rparr>) (Name p) e) (Name p) =
          Some (error_string e) \<and>
        successCount (recordError (r\<lparr>balancer := b'\<rparr>) (Name p) e) = successCount r)"
proof -
  obtain p b' where nxt: "Balancer_Next (balancer r) = Some (Inr (Some p, b'))" "p \<in> set ps"
    using reachable_Next [OF assms] by (elim exE conjE) (rule that)
  have "\<forall>e. Complete p ctx q = Inl e \<longrightarrow>
        Router_Complete r ctx q =
          Some (Inr (Inl e, recordError (r\<lparr>balancer := b'\<rparr>) (Name p) e,
                     [Wait 1, Call (Name p)])) \<and>
        errorCount (recordError (r\<lparr>balancer := b'\<rparr>) (Name p) e) (Name p) =
          Some ((case errorCount r (Name p) of None \<Rightarrow> 0 | Some n \<Rightarrow> n) + 1) \<and>
        lastError (recordError (r\<lparr>balancer := b'\<rparr>) (Name p) e) (Name p) =
          Some (error_string e) \<and>
        successCount (recordError (r\<lparr>balancer := b'\<rparr>) (Name p) e) = successCount r"
    using nxt(1) by (simp add: Router_Complete_def recordError_def counter_def)
  then show ?thesis using nxt by blast
qed

theorem Complete_returns_first_failure_witness:
  "[failingProvider ''a'' ''[a] HTTP 503: unavailable'', mockProvider ''b''] \<noteq> [] \<and>
   Next_calls 0 (NewBalancer [failingProvider ''a'' ''[a] HTTP 503: unavailable'',
                              mockProvider ''b''] Map.empty) =
     Some ([], balancer flaky_router) \<and>
   Complete (failingProvider ''a'' ''[a] HTTP 503: unavailable'') None ''decide'' =
     Inl (Failure ''[a] HTTP 503: unavailable'') \<and>
   Router_Complete flaky_router None ''decide'' =
     Some (Inr (Inl (Failure ''[a] HTTP 503: unavailable''),
                recordError
                  (flaky_router\<lparr>balancer :=
                     (balancer flaky_router)\<lparr>lastIndex := 0, currentWeight := 1\<rparr>\<rparr>)
                  ''a'' (Failure ''[a] HTTP 503: unavailable''),
                [Wait 1, Call ''a''])) \<and>
   errorCount
     (recordError
        (flaky_router\<lparr>balancer :=
           (balancer flaky_router)\<lparr>lastIndex := 0, currentWeight := 1\<rparr>\<rparr>)
        ''a'' (Failure ''[a] HTTP 503: unavailable'')) ''a'' = Some 1 \<and>
   lastError
     (recordError
        (flaky_router\<lparr>balancer :=
           (balancer flaky_router)\<lparr>lastIndex := 0, currentWeight := 1\<rparr>\<rparr>)
        ''a'' (Failure ''[a] HTTP 503: unavailable'')) ''a'' =
     Some ''[a] HTTP 503: unavailable''"
proof -
  let ?a = "failingProvider ''a'' ''[a] HTTP 503: unavailable''"
  let ?ps = "[?a, mockProvider ''b'']"
  have h1: "?ps \<noteq> []" by simp
  have h2: "Next_calls 0 (NewBalancer ?ps Map.empty) = Some ([], balancer flaky_router)"
    by (simp add: flaky_router_def fresh_Router_def)
  have fails: "Complete ?a None ''decide'' = Inl (Failure ''[a] HTTP 503: unavailable'')"
    by (simp add: failingProvider_def)
  have nxt: "Balancer_Next (balancer flaky_router) =
      Some (Inr (Some ?a, (balancer flaky_router)\<lparr>lastIndex := 0, currentWeight := 1\<rparr>))"
    by (simp add: flaky_router_def fresh_Router_def Next_first_of_two)
  obtain p b' where sel: "Balancer_Next (balancer flaky_router) = Some (Inr (Some p, b'))"
    and err: "\<forall>e. Complete p None ''decide'' = Inl e \<longrightarrow>
        Router_Complete flaky_router None ''decide'' =
          Some (Inr (Inl e, recordError (flaky_router\<lparr>balancer := b'\<rparr>) (Name p) e,
                     [Wait 1, Call (Name p)])) \<and>
        errorCount (recordError (flaky_router\<lparr>balancer := b'\<rparr>) (Name p) e) (Name p) =
          Some ((case errorCount flaky_router (Name p) of None \<Rightarrow> 0 | Some n \<Rightarrow> n) + 1) \<and>
        lastError (recordError (flaky_router\<lparr>balancer := b'\<rparr>) (Name p) e) (Name p) =
          Some (error_string e) \<and>
        successCount (recordError (flaky_router\<lparr>balancer := b'\<rparr>) (Name p) e) =
          successCount flaky_router"
    using Complete_returns_first_failure [OF h1 h2, of None "''decide''"]
    by (elim bexE exE conjE) (rule that)
  have p: "p = ?a" and b': "b' = (balancer flaky_router)\<lparr>lastIndex := 0, currentWeight := 1\<rparr>"
    using sel nxt by simp_all
  have none: "errorCount flaky_router ''a'' = None"
    by (simp add: flaky_router_def fresh_Router_def)
  have name: "Name ?a = ''a''" by (simp add: failingProvider_def)
  have "Router_Complete flaky_router None ''decide'' =
     Some (Inr (Inl (Failure ''[a] HTTP 503: unavailable''),
                recordError (flaky_router\<lparr>balancer := b'\<rparr>) (Name ?a)
                  (Failure ''[a] HTTP 503: unavailable''),
                [Wait 1, Call (Name ?a)])) \<and>
     errorCount (recordError (flaky_router\<lparr>balancer := b'\<rparr>) (Name ?a)
                  (Failure ''[a] HTTP 503: unavailable'')) (Name ?a) =
       Some ((case errorCount flaky_router (Name ?a) of None \<Rightarrow> 0 | Some n \<Rightarrow> n) + 1) \<and>
     lastError (recordError (flaky_router\<lparr>balancer := b'\<rparr>) (Name ?a)
                  (Failure ''[a] HTTP 503: unavailable'')) (Name ?a) =
       Some (error_string (Failure ''[a] HTTP 503: unavailable''))"
    using err fails unfolding p by simp
  then show ?thesis using h1 h2 fails b' none name by simp
qed

text \<open>
  The claim as stated fails: the first of two backends answers with an error that
  manager.go classifies as retryable (its message contains 503), the second would
  answer; \<open>Complete\<close> calls the first backend once and returns its error.
\<close>

theorem Complete_does_not_retry_or_fall_back:
  "outcome (Router_Complete flaky_router None ''decide'') =
     Some (Inl (Failure ''[a] HTTP 503: unavailable''), [Wait 1, Call ''a'']) \<and>
   Complete (mockProvider ''b'') None ''decide'' =
     Inr \<lparr>Content = ''mock'', Provider' = ''b'', Model = '''', Latency = 0, TokensIn = 0,
          TokensOut = 0\<rparr>"
  by (simp add: outcome_def Router_Complete_def flaky_router_def fresh_Router_def
      Next_first_of_two failingProvider_def mockProvider_def)




section \<open>The decision cache: eviction and expiry\<close>

lemma evictOldest_fields [simp]:
  "ttl (evictOldest c order) = ttl c" "maxSize (evictOldest c order) = maxSize c"
  by (simp_all add: evictOldest_def split: prod.splits)

lemma Set_fields [simp]:
  "ttl (DecisionCache_Set c key d now order) = ttl c"
  "maxSize (DecisionCache_Set c key d now order) = maxSize c"
  by (simp_all add: DecisionCache_Set_def Let_def)

lemma Set_entry:
  "entries (DecisionCache_Set c key d now order) key =
     Some \<lparr>Decision = d, CreatedAt = now, HitCount = 0\<rparr>"
  by (simp add: DecisionCache_Set_def Let_def)

lemma oldest_scan_min:
  assumes "\<forall>k \<in> set ks. m k \<noteq> None \<and> k \<noteq> ''''"
    and "k0 = '''' \<or> (\<exists>e. m k0 = Some e \<and> CreatedAt e = t0)"
    and "oldest_scan m (k0, t0) ks = (k, t)"
  shows "(ks \<noteq> [] \<or> k0 \<noteq> '''' \<longrightarrow> k \<noteq> '''' \<and> (\<exists>e. m k = Some e \<and> CreatedAt e = t)) \<and>
         (\<forall>k' \<in> set ks. \<forall>e'. m k' = Some e' \<longrightarrow> t \<le> CreatedAt e') \<and>
         (k0 \<noteq> '''' \<longrightarrow> t \<le> t0)"
  using assms
proof (induction ks arbitrary: k0 t0)
  case Nil
  then show ?case by auto
next
  case (Cons key keys)
  obtain entry where entry: "m key = Some entry" and ne: "key \<noteq> ''''"
    using Cons.prems(1) by auto
  have rest: "\<forall>k \<in> set keys. m k \<noteq> None \<and> k \<noteq> ''''" using Cons.prems(1) by simp
  show ?case
  proof (cases "k0 = '''' \<or> CreatedAt entry < t0")
    case True
    then have sc: "oldest_scan m (key, CreatedAt entry) keys = (k, t)"
      using Cons.prems(3) entry by simp
    have start: "key = '''' \<or> (\<exists>e. m key = Some e \<and> CreatedAt e = CreatedAt entry)"
      using entry by simp
    from Cons.IH [OF rest start sc] ne
    have ih: "k \<noteq> ''''" "\<exists>e. m k = Some e \<and> CreatedAt e = t"
      "\<forall>k' \<in> set keys. \<forall>e'. m k' = Some e' \<longrightarrow> t \<le> CreatedAt e'"
      "t \<le> CreatedAt entry" by auto
    show ?thesis using ih entry True by auto
  next
    case False
    then have sc: "oldest_scan m (k0, t0) keys = (k, t)"
      using Cons.prems(3) entry by simp
    have k0: "k0 \<noteq> ''''" using False by simp
    from Cons.IH [OF rest Cons.prems(2) sc] k0
    have ih: "k \<noteq> ''''" "\<exists>e. m k = Some e \<and> CreatedAt e = t"
      "\<forall>k' \<in> set keys. \<forall>e'. m k' = Some e' \<longrightarrow> t \<le> CreatedAt e'"
      "t \<le> t0" by auto
    show ?thesis using ih entry False by auto
  qed
qed

lemma evictOldest_oldest:
  assumes ord: "set order = dom (entries c)" and ne: "dom (entries c) \<noteq> {}"
    and nokey: "'''' \<notin> dom (entries c)"
  shows "\<exists>old e. entries c old = Some e \<and>
           (\<forall>k e'. entries c k = Some e' \<longrightarrow> CreatedAt e \<le> CreatedAt e') \<and>
           evictOldest c order = c\<lparr>entries := (entries c)(old := None)\<rparr>"
proof -
  obtain k t where sc: "oldest_scan (entries c) ('''', zeroTime) order = (k, t)"
    by (cases "oldest_scan (entries c) ('''', zeroTime) order")
  have keys: "\<forall>k \<in> set order. entries c k \<noteq> None \<and> k \<noteq> ''''"
    using ord nokey by auto
  have "set order \<noteq> {}" using ord ne by simp
  then have nonempty: "order \<noteq> []" by auto
  have start: "'''' = '''' \<or> (\<exists>e. entries c '''' = Some e \<and> CreatedAt e = zeroTime)" by simp
  from oldest_scan_min [OF keys start sc] nonempty
  obtain e where res: "k \<noteq> ''''" "entries c k = Some e" "CreatedAt e = t"
    "\<forall>k' \<in> set order. \<forall>e'. entries c k' = Some e' \<longrightarrow> t \<le> CreatedAt e'"
    by auto
  have min: "\<forall>k' e'. entries c k' = Some e' \<longrightarrow> CreatedAt e \<le> CreatedAt e'"
    using res(3,4) ord by auto
  have "evictOldest c order = c\<lparr>entries := (entries c)(k := None)\<rparr>"
    using sc res(1) by (simp add: evictOldest_def)
  then show ?thesis using res(2) min by blast
qed

subsection \<open>The claims about the cache\<close>

text \<open>
  C5, as amended. For a cache of positive maximal size that holds exactly that many
  entries, none of them under the empty key: a \<open>Set\<close> of a key that is not in the
  cache, whatever the order in which the map is ranged over, evicts exactly one entry,
  one whose creation time no other entry precedes, then inserts the new entry, so that
  the cache is at its maximal size again; and \<open>Get\<close> finds the new entry at every
  clock reading \<open>t\<close> that is no more than the time to live after the reading \<open>now\<close>
  with which \<open>Set\<close> stamped it. \<open>Get\<close> reads the clock after \<open>Set\<close> has, so \<open>t\<close> is
  a reading of its own.
\<close>

theorem Set_at_max_size_evicts_oldest:
  assumes ord: "set order = dom (entries c)"
    and pos: "0 < maxSize c"
    and full: "int (card (dom (entries c))) = maxSize c"
    and nokey: "'''' \<notin> dom (entries c)"
    and new: "key \<notin> dom (entries c)"
    and fresh: "t - now \<le> ttl c"
  shows "\<exists>old e.
     entries c old = Some e \<and>
     (\<forall>k e'. entries c k = Some e' \<longrightarrow> CreatedAt e \<le> CreatedAt e') \<and>
     entries (DecisionCache_Set c key d now order) =
       (entries c)(old := None, key \<mapsto> \<lparr>Decision = d, CreatedAt = now, HitCount = 0\<rparr>) \<and>
     int (card (dom (entries (DecisionCache_Set c key d now order)))) = maxSize c \<and>
     fst (DecisionCache_Get (DecisionCache_Set c key d now order) key t) =
       Some \<lparr>Decision = d, CreatedAt = now, HitCount = 1\<rparr>"
proof -
  have some: "0 < card (dom (entries c))" using pos full by auto
  then have ne: "dom (entries c) \<noteq> {}" by auto
  have fin: "finite (dom (entries c))" using some by (rule card_ge_0_finite)
  obtain old e where old: "entries c old = Some e"
    "\<forall>k e'. entries c k = Some e' \<longrightarrow> CreatedAt e \<le> CreatedAt e'"
    "evictOldest c order = c\<lparr>entries := (entries c)(old := None)\<rparr>"
    using evictOldest_oldest [OF ord ne nokey] by (elim exE conjE) (rule that)
  have set: "entries (DecisionCache_Set c key d now order) =
      (entries c)(old := None, key \<mapsto> \<lparr>Decision = d, CreatedAt = now, HitCount = 0\<rparr>)"
    using full old(3) by (simp add: DecisionCache_Set_def)
  have get: "fst (DecisionCache_Get (DecisionCache_Set c key d now order) key t) =
      Some \<lparr>Decision = d, CreatedAt = now, HitCount = 1\<rparr>"
    using fresh by (simp add: DecisionCache_Get_def Set_entry Let_def)
  have "dom (entries (DecisionCache_Set c key d now order)) =
      insert key (dom (entries c) - {old})"
    unfolding set by auto
  moreover have "card (insert key (dom (entries c) - {old})) =
      Suc (card (dom (entries c) - {old}))"
    using fin new by simp
  moreover have "card (dom (entries c) - {old}) = card (dom (entries c)) - 1"
    using old(1) by (simp add: domI)
  ultimately have size: "int (card (dom (entries (DecisionCache_Set c key d now order)))) =
      maxSize c"
    using some full by simp
  show ?thesis using old(1,2) set size get by blast
qed

theorem Set_at_max_size_evicts_oldest_witness:
  "set [''bb'', ''aa''] = dom (entries full_cache) \<and>
   0 < maxSize full_cache \<and>
   int (card (dom (entries full_cache))) = maxSize full_cache \<and>
   '''' \<notin> dom (entries full_cache) \<and>
   ''cc'' \<notin> dom (entries full_cache) \<and>
   9 - 7 \<le> ttl full_cache \<and>
   (\<exists>old e.
     entries full_cache old = Some e \<and>
     (\<forall>k e'. entries full_cache k = Some e' \<longrightarrow> CreatedAt e \<le> CreatedAt e') \<and>
     entries (DecisionCache_Set full_cache ''cc'' Map.empty 7 [''bb'', ''aa'']) =
       (entries full_cache)
         (old := None, ''cc'' \<mapsto> \<lparr>Decision = Map.empty, CreatedAt = 7, HitCount = 0\<rparr>) \<and>
     int (card (dom (entries (DecisionCache_Set full_cache ''cc'' Map.empty 7 [''bb'', ''aa''])))) =
       maxSize full_cache \<and>
     fst (DecisionCache_Get (DecisionCache_Set full_cache ''cc'' Map.empty 7 [''bb'', ''aa''])
            ''cc'' 9) =
       Some \<lparr>Decision = Map.empty, CreatedAt = 7, HitCount = 1\<rparr>)"
proof -
  have h1: "set [''bb'', ''aa''] = dom (entries full_cache)"
    by (auto simp: full_cache_def)
  have h2: "0 < maxSize full_cache" by (simp add: full_cache_def)
  have "dom (entries full_cache) = {''aa'', ''bb''}" by (auto simp: full_cache_def)
  then have h3: "int (card (dom (entries full_cache))) = maxSize full_cache"
    by (simp add: full_cache_def)
  have h4: "'''' \<notin> dom (entries full_cache)" by (simp add: full_cache_def)
  have h5: "''cc'' \<notin> dom (entries full_cache)" by (simp add: full_cache_def)
  have h6: "9 - 7 \<le> ttl full_cache" by (simp add: full_cache_def)
  show ?thesis
    using h1 h2 h3 h4 h5 h6
      Set_at_max_size_evicts_oldest [OF h1 h2 h3 h4 h5 h6, of Map.empty]
    by (intro conjI)
qed

text \<open>
  The claim as stated fails on a cache of maximal size 0, which is at its maximal size
  when it is empty: \<open>Set\<close> finds nothing to evict and the cache grows beyond its
  maximal size. It fails as well on a full cache with a time to live of 0: the oldest
  entry is evicted, but \<open>Get\<close>, reading the clock one nanosecond after \<open>Set\<close> did,
  reports the entry just set absent.
\<close>

theorem Set_at_max_size_counterexample:
  "int (card (dom (entries (NewDecisionCache 0 10 :: unit DecisionCache)))) =
     maxSize (NewDecisionCache 0 10 :: unit DecisionCache) \<and>
   ''k'' \<notin> dom (entries (NewDecisionCache 0 10 :: unit DecisionCache)) \<and>
   \<not> (\<exists>old e. entries (NewDecisionCache 0 10 :: unit DecisionCache) old = Some e) \<and>
   entries (DecisionCache_Set (NewDecisionCache 0 10 :: unit DecisionCache) ''k'' Map.empty 5 []) =
     [''k'' \<mapsto> \<lparr>Decision = Map.empty, CreatedAt = 5, HitCount = 0\<rparr>] \<and>
   int (card (dom (entries brief_cache))) = maxSize brief_cache \<and>
   ''k'' \<notin> dom (entries brief_cache) \<and>
   entries (DecisionCache_Set brief_cache ''k'' Map.empty 5 [''aa'']) =
     [''k'' \<mapsto> \<lparr>Decision = Map.empty, CreatedAt = 5, HitCount = 0\<rparr>] \<and>
   fst (DecisionCache_Get (DecisionCache_Set brief_cache ''k'' Map.empty 5 [''aa'']) ''k'' 6) =
     None"
proof -
  have zero: "int (card (dom (entries (NewDecisionCache 0 10 :: unit DecisionCache)))) =
       maxSize (NewDecisionCache 0 10 :: unit DecisionCache) \<and>
     ''k'' \<notin> dom (entries (NewDecisionCache 0 10 :: unit DecisionCache)) \<and>
     \<not> (\<exists>old e. entries (NewDecisionCache 0 10 :: unit DecisionCache) old = Some e) \<and>
     entries (DecisionCache_Set (NewDecisionCache 0 10 :: unit DecisionCache) ''k'' Map.empty 5 []) =
       [''k'' \<mapsto> \<lparr>Decision = Map.empty, CreatedAt = 5, HitCount = 0\<rparr>]"
    by (simp add: NewDecisionCache_def DecisionCache_Set_def evictOldest_def)
  have "dom (entries brief_cache) = {''aa''}" by (auto simp: brief_cache_def)
  then have full: "int (card (dom (entries brief_cache))) = maxSize brief_cache"
    by (simp add: brief_cache_def)
  have new: "''k'' \<notin> dom (entries brief_cache)" by (simp add: brief_cache_def)
  have set: "entries (DecisionCache_Set brief_cache ''k'' Map.empty 5 [''aa'']) =
      [''k'' \<mapsto> \<lparr>Decision = Map.empty, CreatedAt = 5, HitCount = 0\<rparr>]"
    using full by (auto simp: DecisionCache_Set_def evictOldest_def brief_cache_def fun_upd_def)
  have get: "fst (DecisionCache_Get (DecisionCache_Set brief_cache ''k'' Map.empty 5 [''aa''])
      ''k'' 6) = None"
    by (simp add: DecisionCache_Get_def Set_entry brief_cache_def)
  show ?thesis using zero full new set get by simp
qed

text \<open>
  With an entry under the empty key the loop of \<open>evictOldest\<close> takes that key for "no
  key yet": in one order of the map it evicts the newer entry, in the other it evicts
  nothing. The keys that \<open>hashObservation\<close> produces are 16 hexadecimal digits, never
  empty.
\<close>

lemma Set_with_empty_key_evicts_newest_or_nothing:
  "entries (DecisionCache_Set sentinel_cache ''b'' Map.empty 7 ['''', ''a'']) =
     ['''' \<mapsto> \<lparr>Decision = Map.empty, CreatedAt = 1, HitCount = 0\<rparr>,
      ''b'' \<mapsto> \<lparr>Decision = Map.empty, CreatedAt = 7, HitCount = 0\<rparr>] \<and>
   entries (DecisionCache_Set sentinel_cache ''b'' Map.empty 7 [''a'', '''']) =
     ['''' \<mapsto> \<lparr>Decision = Map.empty, CreatedAt = 1, HitCount = 0\<rparr>,
      ''a'' \<mapsto> \<lparr>Decision = Map.empty, CreatedAt = 5, HitCount = 0\<rparr>,
      ''b'' \<mapsto> \<lparr>Decision = Map.empty, CreatedAt = 7, HitCount = 0\<rparr>]"
proof -
  have "dom (entries sentinel_cache) = {'''', ''a''}" by (auto simp: sentinel_cache_def)
  then have full: "int (card (dom (entries sentinel_cache))) = maxSize sentinel_cache"
    by (simp add: sentinel_cache_def)
  show ?thesis
    using full by (auto simp: DecisionCache_Set_def evictOldest_def sentinel_cache_def fun_upd_def)
qed

text \<open>
  C6. \<open>Set\<close> at time \<open>T\<close> stores the entry with creation time \<open>T\<close> and leaves the time to
  live as it is. For an entry that a cache holds under a key, \<open>Get\<close> at any time
  strictly before its creation time plus the time to live returns it as found (its hit
  counter incremented), and at any time after its creation time plus the time to live
  \<open>Get\<close> reports it absent and leaves the cache as it is: the expired entry stays in
  the map.
\<close>

theorem Get_respects_ttl:
  "entries (DecisionCache_Set c0 key d T order) key =
     Some \<lparr>Decision = d, CreatedAt = T, HitCount = 0\<rparr> \<and>
   ttl (DecisionCache_Set c0 key d T order) = ttl c0 \<and>
   (entries c key = Some e \<and> now < CreatedAt e + ttl c \<longrightarrow>
      DecisionCache_Get c key now =
        (Some (e\<lparr>HitCount := HitCount e + 1\<rparr>),
         c\<lparr>entries := (entries c)(key \<mapsto> e\<lparr>HitCount := HitCount e + 1\<rparr>)\<rparr>)) \<and>
   (entries c key = Some e \<and> CreatedAt e + ttl c < now \<longrightarrow>
      DecisionCache_Get c key now = (None, c))"
  by (simp add: DecisionCache_Get_def Set_entry Let_def)

theorem Get_respects_ttl_witness:
  "entries (DecisionCache_Set full_cache ''cc'' Map.empty 100 [''aa'', ''bb'']) ''cc'' =
     Some \<lparr>Decision = Map.empty, CreatedAt = 100, HitCount = 0\<rparr> \<and>
   ttl (DecisionCache_Set full_cache ''cc'' Map.empty 100 [''aa'', ''bb'']) = 10 \<and>
   fst (DecisionCache_Get (DecisionCache_Set full_cache ''cc'' Map.empty 100 [''aa'', ''bb''])
          ''cc'' 109) =
     Some \<lparr>Decision = Map.empty, CreatedAt = 100, HitCount = 1\<rparr> \<and>
   DecisionCache_Get (DecisionCache_Set full_cache ''cc'' Map.empty 100 [''aa'', ''bb''])
     ''cc'' 111 =
     (None, DecisionCache_Set full_cache ''cc'' Map.empty 100 [''aa'', ''bb''])"
proof -
  let ?c = "DecisionCache_Set full_cache ''cc'' Map.empty 100 [''aa'', ''bb'']"
  let ?e = "\<lparr>Decision = Map.empty, CreatedAt = 100, HitCount = 0\<rparr> :: unit CachedDecision"
  note at = Get_respects_ttl [where ?c0.0 = full_cache and key = "''cc''" and d = Map.empty
      and T = 100 and order = "[''aa'', ''bb'']" and c = ?c and e = ?e]
  have t: "ttl full_cache = 10" by (simp add: full_cache_def)
  have e: "entries ?c ''cc'' = Some ?e" using at [where now = 109] by (rule conjunct1)
  have life: "ttl ?c = 10" by (simp add: t)
  have "DecisionCache_Get ?c ''cc'' 109 =
      (Some (?e\<lparr>HitCount := HitCount ?e + 1\<rparr>),
       ?c\<lparr>entries := (entries ?c)(''cc'' \<mapsto> ?e\<lparr>HitCount := HitCount ?e + 1\<rparr>)\<rparr>)"
    using at [where now = 109] e life by simp
  then have found: "fst (DecisionCache_Get ?c ''cc'' 109) =
      Some \<lparr>Decision = Map.empty, CreatedAt = 100, HitCount = 1\<rparr>"
    by simp
  have gone: "DecisionCache_Get ?c ''cc'' 111 = (None, ?c)"
    using at [where now = 111] e life by simp
  show ?thesis using e life found gone by simp
qed

section \<open>The batch decision system: cache hits and failed calls\<close>

lemma same_stamps_refl [simp]: "same_stamps c c"
  by (simp add: same_stamps_def)

lemma same_stamps_trans: "same_stamps a b \<Longrightarrow> same_stamps b c \<Longrightarrow> same_stamps a c"
  by (simp add: same_stamps_def)

lemma Get_same_stamps: "same_stamps c (snd (DecisionCache_Get c key now))"
  by (auto simp: same_stamps_def DecisionCache_Get_def Let_def split: option.splits)

lemma Get_found_iff:
  "fst (DecisionCache_Get c key now) \<noteq> None \<longleftrightarrow>
     (\<exists>e. entries c key = Some e \<and> now - CreatedAt e \<le> ttl c)"
  by (auto simp: DecisionCache_Get_def Let_def split: option.splits)

lemma Get_decision:
  "fst (DecisionCache_Get c key now) = Some e \<Longrightarrow>
     Some (Decision e) = map_option Decision (entries c key)"
  by (auto simp: DecisionCache_Get_def Let_def split: option.splits if_splits)

lemma same_stamps_found:
  assumes "same_stamps c c'"
  shows "fst (DecisionCache_Get c' key now) \<noteq> None \<longleftrightarrow> fst (DecisionCache_Get c key now) \<noteq> None"
proof -
  have t: "ttl c' = ttl c" using assms by (simp add: same_stamps_def)
  have "map_option (\<lambda>e. (Decision e, CreatedAt e)) (entries c' key) =
        map_option (\<lambda>e. (Decision e, CreatedAt e)) (entries c key)"
    using assms by (simp add: same_stamps_def)
  then show ?thesis
    unfolding Get_found_iff t by (cases "entries c key"; cases "entries c' key") auto
qed

lemma same_stamps_decision:
  assumes "same_stamps c c'"
  shows "map_option Decision (entries c' key) = map_option Decision (entries c key)"
proof -
  have "map_option (\<lambda>e. (Decision e, CreatedAt e)) (entries c' key) =
        map_option (\<lambda>e. (Decision e, CreatedAt e)) (entries c key)"
    using assms by (simp add: same_stamps_def)
  then show ?thesis by (cases "entries c key"; cases "entries c' key") auto
qed

lemma misses_step:
  assumes "i < length observations"
  shows "misses w c observations i =
     (if hit w c observations i then misses w c observations (Suc i)
      else i # misses w c observations (Suc i))"
  using assms by (simp add: misses_def upt_conv_Cons)

lemma misses_end [simp]: "misses w c observations (length observations) = []"
  by (simp add: misses_def)

lemma check_cache_step_hit:
  assumes "fst (DecisionCache_Get (cache bds) (hashObservation w obs) (time_Now w i)) = Some cached"
  shows "check_cache w i (obs # rest) (r, uis, uos, bds) =
     check_cache w (Suc i) rest
       (r\<lparr>Decisions := (Decisions r)[i := Some (Decision cached)],
          FromCache := (FromCache r)[i := True]\<rparr>,
        uis, uos,
        bds\<lparr>cache := snd (DecisionCache_Get (cache bds) (hashObservation w obs) (time_Now w i)),
            cachHits := cachHits bds + 1\<rparr>)"
  using assms
  by (cases "DecisionCache_Get (cache bds) (hashObservation w obs) (time_Now w i)")
    (simp add: Let_def)

lemma check_cache_step_miss:
  assumes "fst (DecisionCache_Get (cache bds) (hashObservation w obs) (time_Now w i)) = None"
  shows "check_cache w i (obs # rest) (r, uis, uos, bds) =
     check_cache w (Suc i) rest
       (r, uis @ [i], uos @ [obs],
        bds\<lparr>cache := snd (DecisionCache_Get (cache bds) (hashObservation w obs) (time_Now w i))\<rparr>)"
  using assms
  by (cases "DecisionCache_Get (cache bds) (hashObservation w obs) (time_Now w i)")
    (simp add: Let_def)

lemma check_cache_inv:
  assumes "check_cache w i (drop i observations) (r, uis, uos, bds) = (r', uis', uos', bds')"
    and "i \<le> length observations"
    and "length (Decisions r) = length observations"
    and "length (FromCache r) = length observations"
    and "same_stamps c0 (cache bds)"
  shows "length (Decisions r') = length observations \<and>
         length (FromCache r') = length observations \<and>
         same_stamps c0 (cache bds') \<and>
         Error r' = Error r \<and>
         uis' = uis @ misses w c0 observations i \<and>
         uos' = uos @ map ((!) observations) (misses w c0 observations i) \<and>
         (\<forall>j < length observations.
            if i \<le> j \<and> hit w c0 observations j
            then Decisions r' ! j = cached_decision w c0 observations j \<and> FromCache r' ! j
            else Decisions r' ! j = Decisions r ! j \<and> FromCache r' ! j = FromCache r ! j)"
  using assms
proof (induction "length observations - i" arbitrary: i r uis uos bds)
  case 0
  then have "i = length observations" by simp
  then show ?case using "0.prems" by simp
next
  case (Suc d)
  let ?n = "length observations"
  let ?obs = "observations ! i"
  let ?G = "DecisionCache_Get (cache bds) (hashObservation w ?obs) (time_Now w i)"
  have i: "i < ?n" using Suc.hyps(2) by simp
  have dr: "drop i observations = ?obs # drop (Suc i) observations"
    using i by (simp add: Cons_nth_drop_Suc)
  have d: "d = ?n - Suc i" using Suc.hyps(2) by simp
  have le: "Suc i \<le> ?n" using i by simp
  have st': "same_stamps c0 (snd ?G)"
    using Suc.prems(5) Get_same_stamps [of "cache bds"] same_stamps_trans by blast
  have hit_iff: "hit w c0 observations i \<longleftrightarrow> fst ?G \<noteq> None"
    unfolding hit_def using same_stamps_found [OF Suc.prems(5)] by simp
  show ?case
  proof (cases "fst ?G")
    case None
    have nohit: "\<not> hit w c0 observations i" using None hit_iff by simp
    let ?bds = "bds\<lparr>cache := snd ?G\<rparr>"
    have run: "check_cache w (Suc i) (drop (Suc i) observations)
        (r, uis @ [i], uos @ [?obs], ?bds) = (r', uis', uos', bds')"
      using Suc.prems(1) unfolding dr check_cache_step_miss [OF None] .
    have st2: "same_stamps c0 (cache ?bds)" using st' by simp
    note ih = Suc.hyps(1) [OF d run le Suc.prems(3) Suc.prems(4) st2]
    have m: "misses w c0 observations i = i # misses w c0 observations (Suc i)"
      using misses_step [OF i] nohit by simp
    have idx: "\<forall>j < ?n.
        if i \<le> j \<and> hit w c0 observations j
        then Decisions r' ! j = cached_decision w c0 observations j \<and> FromCache r' ! j
        else Decisions r' ! j = Decisions r ! j \<and> FromCache r' ! j = FromCache r ! j"
    proof (intro allI impI)
      fix j assume j: "j < ?n"
      have at: "if Suc i \<le> j \<and> hit w c0 observations j
        then Decisions r' ! j = cached_decision w c0 observations j \<and> FromCache r' ! j
        else Decisions r' ! j = Decisions r ! j \<and> FromCache r' ! j = FromCache r ! j"
        using ih j by blast
      show "if i \<le> j \<and> hit w c0 observations j
        then Decisions r' ! j = cached_decision w c0 observations j \<and> FromCache r' ! j
        else Decisions r' ! j = Decisions r ! j \<and> FromCache r' ! j = FromCache r ! j"
      proof (cases "j = i")
        case True
        then show ?thesis using at nohit by simp
      next
        case False
        then have "i \<le> j \<longleftrightarrow> Suc i \<le> j" by auto
        then show ?thesis using at by simp
      qed
    qed
    show ?thesis using ih idx by (simp add: m)
  next
    case (Some cached)
    have ishit: "hit w c0 observations i" using Some hit_iff by simp
    let ?r = "r\<lparr>Decisions := (Decisions r)[i := Some (Decision cached)],
                 FromCache := (FromCache r)[i := True]\<rparr>"
    let ?bds = "bds\<lparr>cache := snd ?G, cachHits := cachHits bds + 1\<rparr>"
    have run: "check_cache w (Suc i) (drop (Suc i) observations)
        (?r, uis, uos, ?bds) = (r', uis', uos', bds')"
      using Suc.prems(1) unfolding dr check_cache_step_hit [OF Some] .
    have st2: "same_stamps c0 (cache ?bds)" using st' by simp
    have l1: "length (Decisions ?r) = ?n" using Suc.prems(3) by simp
    have l2: "length (FromCache ?r) = ?n" using Suc.prems(4) by simp
    note ih = Suc.hyps(1) [OF d run le l1 l2 st2]
    have m: "misses w c0 observations i = misses w c0 observations (Suc i)"
      using misses_step [OF i] ishit by simp
    have dec: "Some (Decision cached) = cached_decision w c0 observations i"
      using Get_decision [OF Some] same_stamps_decision [OF Suc.prems(5)]
      by (simp add: cached_decision_def)
    have idx: "\<forall>j < ?n.
        if i \<le> j \<and> hit w c0 observations j
        then Decisions r' ! j = cached_decision w c0 observations j \<and> FromCache r' ! j
        else Decisions r' ! j = Decisions r ! j \<and> FromCache r' ! j = FromCache r ! j"
    proof (intro allI impI)
      fix j assume j: "j < ?n"
      have at: "if Suc i \<le> j \<and> hit w c0 observations j
        then Decisions r' ! j = cached_decision w c0 observations j \<and> FromCache r' ! j
        else Decisions r' ! j = Decisions ?r ! j \<and> FromCache r' ! j = FromCache ?r ! j"
        using ih j by blast
      show "if i \<le> j \<and> hit w c0 observations j
        then Decisions r' ! j = cached_decision w c0 observations j \<and> FromCache r' ! j
        else Decisions r' ! j = Decisions r ! j \<and> FromCache r' ! j = FromCache r ! j"
      proof (cases "j = i")
        case True
        then show ?thesis using at ishit dec i Suc.prems(3,4) by simp
      next
        case False
        then have "i \<le> j \<longleftrightarrow> Suc i \<le> j" by auto
        then show ?thesis using at False by simp
      qed
    qed
    show ?thesis using ih idx by (simp add: m)
  qed
qed

lemma fill_defaults_props:
  "length (Decisions (fill_defaults observations idxs r)) = length (Decisions r) \<and>
   FromCache (fill_defaults observations idxs r) = FromCache r \<and>
   Error (fill_defaults observations idxs r) = Error r \<and>
   (\<forall>j < length (Decisions r).
      Decisions (fill_defaults observations idxs r) ! j =
        (if j \<in> set idxs then Some (DefaultDecision (observations ! j)) else Decisions r ! j))"
proof (induction idxs arbitrary: r)
  case Nil
  then show ?case by simp
next
  case (Cons idx idxs)
  let ?r = "r\<lparr>Decisions := (Decisions r)[idx := Some (DefaultDecision (observations ! idx))]\<rparr>"
  note ih = Cons.IH [of ?r]
  have len: "length (Decisions ?r) = length (Decisions r)" by simp
  have "\<forall>j < length (Decisions r).
      Decisions (fill_defaults observations idxs ?r) ! j =
        (if j \<in> set (idx # idxs) then Some (DefaultDecision (observations ! j))
         else Decisions r ! j)"
  proof (intro allI impI)
    fix j assume j: "j < length (Decisions r)"
    then have "Decisions (fill_defaults observations idxs ?r) ! j =
        (if j \<in> set idxs then Some (DefaultDecision (observations ! j)) else Decisions ?r ! j)"
      using ih by simp
    then show "Decisions (fill_defaults observations idxs ?r) ! j =
        (if j \<in> set (idx # idxs) then Some (DefaultDecision (observations ! j))
         else Decisions r ! j)"
      using j by (cases "j = idx") auto
  qed
  then show ?case using ih by simp
qed

lemma set_misses:
  "set (misses w c observations 0) = {j. j < length observations \<and> \<not> hit w c observations j}"
  by (auto simp: misses_def)

lemma probe_all:
  fixes observations :: "'a object list"
  defines "n \<equiv> length observations"
  assumes run: "check_cache w 0 observations
      (\<lparr>Decisions = replicate n None, Strategy = '''', FromCache = replicate n False,
        Error = None\<rparr>, [], [], bds) = (r', uis', uos', bds')"
  shows "length (Decisions r') = n" and "length (FromCache r') = n" and "Error r' = None"
    and "uis' = misses w (cache bds) observations 0"
    and "length uos' = length uis'"
    and "\<forall>j < n. if hit w (cache bds) observations j
           then Decisions r' ! j = cached_decision w (cache bds) observations j \<and> FromCache r' ! j
           else Decisions r' ! j = None \<and> \<not> FromCache r' ! j"
proof -
  let ?r = "\<lparr>Decisions = replicate n None, Strategy = '''', FromCache = replicate n False,
        Error = None\<rparr> :: 'a BatchDecisionResponse"
  have run': "check_cache w 0 (drop 0 observations) (?r, [], [], bds) = (r', uis', uos', bds')"
    using run by simp
  have l1: "length (Decisions ?r) = length observations" by (simp add: n_def)
  have l2: "length (FromCache ?r) = length observations" by (simp add: n_def)
  have st: "same_stamps (cache bds) (cache bds)" by simp
  note inv = check_cache_inv [OF run' _ l1 l2 st]
  show "length (Decisions r') = n" using inv by (simp add: n_def)
  show "length (FromCache r') = n" using inv by (simp add: n_def)
  show "Error r' = None" using inv by simp
  show "uis' = misses w (cache bds) observations 0" using inv by simp
  show "length uos' = length uis'" using inv by simp
  show "\<forall>j < n. if hit w (cache bds) observations j
           then Decisions r' ! j = cached_decision w (cache bds) observations j \<and> FromCache r' ! j
           else Decisions r' ! j = None \<and> \<not> FromCache r' ! j"
  proof (intro allI impI)
    fix j assume j: "j < n"
    have "if 0 \<le> j \<and> hit w (cache bds) observations j
        then Decisions r' ! j = cached_decision w (cache bds) observations j \<and> FromCache r' ! j
        else Decisions r' ! j = Decisions ?r ! j \<and> FromCache r' ! j = FromCache ?r ! j"
      using inv j by (simp add: n_def)
    then show "if hit w (cache bds) observations j
           then Decisions r' ! j = cached_decision w (cache bds) observations j \<and> FromCache r' ! j
           else Decisions r' ! j = None \<and> \<not> FromCache r' ! j"
      using j by (simp split: if_splits)
  qed
qed

lemma hit_cached:
  assumes "hit w c observations i"
  shows "\<exists>d. cached_decision w c observations i = Some d"
proof -
  have "\<exists>e. entries c (hashObservation w (observations ! i)) = Some e \<and>
      time_Now w i - CreatedAt e \<le> ttl c"
    using assms unfolding hit_def Get_found_iff .
  then obtain e where "entries c (hashObservation w (observations ! i)) = Some e" by auto
  then show ?thesis by (simp add: cached_decision_def)
qed

lemma hit_alice: "hit down_world (cache warm_system) (alice # rest) 0"
  by (simp add: hit_def down_world_def warm_system_def alice_def name_key_def
      DecisionCache_Get_def Let_def)

lemma miss_bob: "\<not> hit down_world (cache warm_system) [alice, bob] (Suc 0)"
  by (simp add: hit_def down_world_def warm_system_def bob_def name_key_def
      DecisionCache_Get_def)

lemma down_call: "snd (snd (GetBatchDecisions down_world warm_system [alice, bob])) = [''prompt'']"
  by (simp add: GetBatchDecisions_def down_world_def warm_system_def alice_def bob_def
      name_key_def DecisionCache_Get_def Let_def)

subsection \<open>Single calls traced through the source\<close>

text \<open>
  Four calls with the observations of alice, whose decision is cached, and bob, whose is
  not: the completion succeeds with one decision; it succeeds with none, so that bob
  gets the default; it fails; the context is cancelled between the two checks. The
  response, the counters and the cache afterwards are those a trace of batch.go 79-168
  gives.
\<close>

lemma successful_call_trace:
  "fst (GetBatchDecisions up_world warm_system [alice, bob]) =
     \<lparr>Decisions = [Some [''action'' \<mapsto> Str ''wait''],
                   Some [''npc_id'' \<mapsto> Str ''npc_2'', ''action'' \<mapsto> Str ''talk'']],
      Strategy = '''', FromCache = [True, False], Error = None\<rparr> \<and>
   snd (snd (GetBatchDecisions up_world warm_system [alice, bob])) = [''prompt''] \<and>
   batchCalls (fst (snd (GetBatchDecisions up_world warm_system [alice, bob]))) = 1 \<and>
   cachHits (fst (snd (GetBatchDecisions up_world warm_system [alice, bob]))) = 1 \<and>
   fallbackUsed (fst (snd (GetBatchDecisions up_world warm_system [alice, bob]))) = 0 \<and>
   totalDecisions (fst (snd (GetBatchDecisions up_world warm_system [alice, bob]))) = 2 \<and>
   entries (cache (fst (snd (GetBatchDecisions up_world warm_system [alice, bob])))) ''alice'' =
     Some \<lparr>Decision = [''action'' \<mapsto> Str ''wait''], CreatedAt = 100, HitCount = 1\<rparr> \<and>
   entries (cache (fst (snd (GetBatchDecisions up_world warm_system [alice, bob])))) ''bob'' =
     Some \<lparr>Decision = [''npc_id'' \<mapsto> Str ''npc_2'', ''action'' \<mapsto> Str ''talk''],
           CreatedAt = 105, HitCount = 0\<rparr>"
  by (simp add: GetBatchDecisions_def up_world_def down_world_def warm_system_def alice_def
      bob_def name_key_def DecisionCache_Get_def DecisionCache_Set_def Let_def)

lemma failed_call_trace:
  "batchCalls (fst (snd (GetBatchDecisions down_world warm_system [alice, bob]))) = 0 \<and>
   cachHits (fst (snd (GetBatchDecisions down_world warm_system [alice, bob]))) = 1 \<and>
   fallbackUsed (fst (snd (GetBatchDecisions down_world warm_system [alice, bob]))) = 1 \<and>
   totalDecisions (fst (snd (GetBatchDecisions down_world warm_system [alice, bob]))) = 2 \<and>
   entries (cache (fst (snd (GetBatchDecisions down_world warm_system [alice, bob])))) ''alice'' =
     Some \<lparr>Decision = [''action'' \<mapsto> Str ''wait''], CreatedAt = 100, HitCount = 1\<rparr> \<and>
   entries (cache (fst (snd (GetBatchDecisions down_world warm_system [alice, bob])))) ''bob'' =
     None"
  by (simp add: GetBatchDecisions_def down_world_def warm_system_def alice_def
      bob_def name_key_def DecisionCache_Get_def Let_def)

lemma short_answer_trace:
  "fst (GetBatchDecisions
         (up_world\<lparr>parseMultiNPCResponse := (\<lambda>response obs. [])\<rparr>) warm_system [alice, bob]) =
     \<lparr>Decisions = [Some [''action'' \<mapsto> Str ''wait''],
                   Some [''npc_id'' \<mapsto> Str ''npc_2'', ''action'' \<mapsto> Str ''explore'',
                         ''reason'' \<mapsto> Str ''Looking around...'']],
      Strategy = '''', FromCache = [True, False], Error = None\<rparr>"
  by (simp add: GetBatchDecisions_def up_world_def down_world_def warm_system_def alice_def
      bob_def name_key_def DecisionCache_Get_def DecisionCache_Set_def Let_def DefaultDecision_def)

lemma late_cancel_trace:
  "fst (GetBatchDecisions late_cancel_world warm_system [alice, bob]) =
     \<lparr>Decisions = [], Strategy = '''', FromCache = [], Error = Some Canceled\<rparr> \<and>
   snd (snd (GetBatchDecisions late_cancel_world warm_system [alice, bob])) = [] \<and>
   cachHits (fst (snd (GetBatchDecisions late_cancel_world warm_system [alice, bob]))) = 1 \<and>
   totalDecisions (fst (snd (GetBatchDecisions late_cancel_world warm_system [alice, bob]))) = 2"
  by (simp add: GetBatchDecisions_def late_cancel_world_def down_world_def warm_system_def
      alice_def bob_def name_key_def DecisionCache_Get_def Let_def error_response_def)

subsection \<open>The claims about a batch call\<close>

text \<open>
  C8, as amended. A call whose context is not cancelled when it starts and in which the
  probe of every observation finds a live entry of the cache: \<open>callLLMWithFallback\<close> is
  not called, the response holds one decision for every observation, the one stored
  under its fingerprint, and every \<open>FromCache\<close> flag is true.
\<close>

theorem all_cached_no_network_call:
  assumes live: "ctx_Err w 0 = None"
    and hits: "\<forall>i < length observations. hit w (cache bds) observations i"
  shows "snd (snd (GetBatchDecisions w bds observations)) = [] \<and>
     length (Decisions (fst (GetBatchDecisions w bds observations))) = length observations \<and>
     FromCache (fst (GetBatchDecisions w bds observations)) =
       replicate (length observations) True \<and>
     (\<forall>i < length observations.
        \<exists>d. Decisions (fst (GetBatchDecisions w bds observations)) ! i = Some d \<and>
            cached_decision w (cache bds) observations i = Some d)"
proof (cases "observations = []")
  case True
  then show ?thesis by (simp add: GetBatchDecisions_def error_response_def)
next
  case False
  let ?n = "length observations"
  let ?bds1 = "bds\<lparr>totalDecisions := totalDecisions bds + int ?n\<rparr>"
  let ?r0 = "\<lparr>Decisions = replicate ?n None, Strategy = [], FromCache = replicate ?n False,
        Error = None\<rparr> :: 'a BatchDecisionResponse"
  obtain r' uis' uos' bds' where run:
    "check_cache w 0 observations (?r0, [], [], ?bds1) = (r', uis', uos', bds')"
    by (cases "check_cache w 0 observations (?r0, [], [], ?bds1)") auto
  note p = probe_all [OF run]
  have hits1: "\<forall>i < ?n. hit w (cache ?bds1) observations i" using hits by simp
  have "misses w (cache ?bds1) observations 0 = []"
    using hits1 by (simp add: misses_def filter_empty_conv)
  then have "uis' = []" using p(4) by simp
  then have empty: "uos' = []" using p(5) by simp
  have res: "GetBatchDecisions w bds observations = (r', bds', [])"
    using False live run empty by (simp add: GetBatchDecisions_def Let_def)
  have flags: "FromCache r' = replicate ?n True"
  proof (rule nth_equalityI)
    show "length (FromCache r') = length (replicate ?n True)" using p(2) by simp
  next
    fix i assume "i < length (FromCache r')"
    then have i: "i < ?n" using p(2) by simp
    then have "FromCache r' ! i" using p(6) hits1 by auto
    then show "FromCache r' ! i = replicate ?n True ! i" using i by simp
  qed
  have decs: "\<forall>i < ?n. \<exists>d. Decisions r' ! i = Some d \<and>
      cached_decision w (cache bds) observations i = Some d"
  proof (intro allI impI)
    fix i assume i: "i < ?n"
    then have h: "hit w (cache ?bds1) observations i" using hits1 by simp
    then have "Decisions r' ! i = cached_decision w (cache ?bds1) observations i"
      using p(6) i by auto
    moreover obtain d where "cached_decision w (cache ?bds1) observations i = Some d"
      using hit_cached [OF h] by auto
    ultimately show "\<exists>d. Decisions r' ! i = Some d \<and>
      cached_decision w (cache bds) observations i = Some d" by simp
  qed
  show ?thesis using res p(1) flags decs by simp
qed

theorem all_cached_no_network_call_witness:
  "ctx_Err down_world 0 = None \<and>
   hit down_world (cache warm_system) [alice] 0 \<and>
   snd (snd (GetBatchDecisions down_world warm_system [alice])) = [] \<and>
   length (Decisions (fst (GetBatchDecisions down_world warm_system [alice]))) = 1 \<and>
   FromCache (fst (GetBatchDecisions down_world warm_system [alice])) = [True] \<and>
   Decisions (fst (GetBatchDecisions down_world warm_system [alice])) ! 0 =
     Some [''action'' \<mapsto> Str ''wait'']"
proof -
  have h1: "ctx_Err down_world 0 = None" by (simp add: down_world_def)
  have a0: "hit down_world (cache warm_system) [alice] 0" by (rule hit_alice)
  then have h2: "\<forall>i < length [alice]. hit down_world (cache warm_system) [alice] i" by simp
  note t = all_cached_no_network_call [OF h1 h2]
  have c: "cached_decision down_world (cache warm_system) [alice] 0 =
      Some [''action'' \<mapsto> Str ''wait'']"
    by (simp add: cached_decision_def down_world_def warm_system_def alice_def name_key_def)
  have "Decisions (fst (GetBatchDecisions down_world warm_system [alice])) ! 0 =
     Some [''action'' \<mapsto> Str ''wait'']"
    using t c by auto
  then show ?thesis using h1 a0 t by simp
qed

text \<open>
  The claim as stated fails for a call whose context is already cancelled: the
  fingerprint of the one observation hits the cache, but the call returns before any
  probe, with the error of the context, no decision and no flag.
\<close>

theorem all_cached_cancelled_context_counterexample:
  "length [alice] = 1 \<and>
   hit cancelled_world (cache warm_system) [alice] 0 \<and>
   fst (GetBatchDecisions cancelled_world warm_system [alice]) =
     \<lparr>Decisions = [], Strategy = '''', FromCache = [], Error = Some Canceled\<rparr> \<and>
   snd (snd (GetBatchDecisions cancelled_world warm_system [alice])) = []"
  by (simp add: hit_def cancelled_world_def down_world_def warm_system_def alice_def
      name_key_def DecisionCache_Get_def Let_def GetBatchDecisions_def error_response_def)

text \<open>
  C7. A call with a non-empty observation list that reaches the combined completion
  call, which fails: no error is set in the response, that call was the only one, the
  response holds as many decisions as there are observations, and each observation whose
  probe failed has the default decision of that observation, which is the action
  \<open>explore\<close> with the reason \<open>Looking around...\<close> under the observation's \<open>npc_id\<close>
  (and a false \<open>FromCache\<close> flag), each other one the decision stored under its
  fingerprint.
\<close>

theorem failed_call_yields_defaults:
  assumes nonempty: "observations \<noteq> []"
    and made: "prompt \<in> set (snd (snd (GetBatchDecisions w bds observations)))"
    and failed: "callLLMWithFallback w prompt = Inl err"
  shows "Error (fst (GetBatchDecisions w bds observations)) = None \<and>
     snd (snd (GetBatchDecisions w bds observations)) = [prompt] \<and>
     length (Decisions (fst (GetBatchDecisions w bds observations))) = length observations \<and>
     (\<forall>i < length observations.
        if hit w (cache bds) observations i
        then Decisions (fst (GetBatchDecisions w bds observations)) ! i =
               cached_decision w (cache bds) observations i \<and>
             FromCache (fst (GetBatchDecisions w bds observations)) ! i
        else Decisions (fst (GetBatchDecisions w bds observations)) ! i =
               Some (DefaultDecision (observations ! i)) \<and>
             DefaultDecision (observations ! i) =
               [''npc_id'' \<mapsto>
                  (case (observations ! i) ''npc_id'' of None \<Rightarrow> Null | Some v \<Rightarrow> v),
                ''action'' \<mapsto> Str ''explore'',
                ''reason'' \<mapsto> Str ''Looking around...''] \<and>
             \<not> FromCache (fst (GetBatchDecisions w bds observations)) ! i)"
proof -
  let ?n = "length observations"
  let ?bds1 = "bds\<lparr>totalDecisions := totalDecisions bds + int ?n\<rparr>"
  let ?r0 = "\<lparr>Decisions = replicate ?n None, Strategy = [], FromCache = replicate ?n False,
        Error = None\<rparr> :: 'a BatchDecisionResponse"
  obtain r' uis' uos' bds' where run:
    "check_cache w 0 observations (?r0, [], [], ?bds1) = (r', uis', uos', bds')"
    by (cases "check_cache w 0 observations (?r0, [], [], ?bds1)") auto
  note p = probe_all [OF run]
  let ?p = "buildFlexibleMultiNPCPrompt w uos'"
  have reached: "ctx_Err w 0 = None \<and> uos' \<noteq> [] \<and> ctx_Err w 1 = None \<and> prompt = ?p"
    using made nonempty run
    by (auto simp: GetBatchDecisions_def Let_def split: option.splits if_splits sum.splits
        prod.splits)
  have res: "GetBatchDecisions w bds observations =
      (fill_defaults observations uis' r', bds'\<lparr>fallbackUsed := fallbackUsed bds' + 1\<rparr>, [prompt])"
    using reached failed nonempty run by (simp add: GetBatchDecisions_def Let_def)
  note f = fill_defaults_props [of observations uis' r']
  have mem: "\<And>j. j < ?n \<Longrightarrow> j \<in> set uis' \<longleftrightarrow> \<not> hit w (cache bds) observations j"
    using p(4) by (simp add: set_misses)
  have each: "\<forall>i < ?n.
        if hit w (cache bds) observations i
        then Decisions (fill_defaults observations uis' r') ! i =
               cached_decision w (cache bds) observations i \<and>
             FromCache (fill_defaults observations uis' r') ! i
        else Decisions (fill_defaults observations uis' r') ! i =
               Some (DefaultDecision (observations ! i)) \<and>
             DefaultDecision (observations ! i) =
               [''npc_id'' \<mapsto>
                  (case (observations ! i) ''npc_id'' of None \<Rightarrow> Null | Some v \<Rightarrow> v),
                ''action'' \<mapsto> Str ''explore'',
                ''reason'' \<mapsto> Str ''Looking around...''] \<and>
             \<not> FromCache (fill_defaults observations uis' r') ! i"
  proof (intro allI impI)
    fix i assume i: "i < ?n"
    have d: "Decisions (fill_defaults observations uis' r') ! i =
        (if i \<in> set uis' then Some (DefaultDecision (observations ! i)) else Decisions r' ! i)"
      using f i p(1) by simp
    have fc: "FromCache (fill_defaults observations uis' r') = FromCache r'" using f by simp
    have pi: "if hit w (cache bds) observations i
           then Decisions r' ! i = cached_decision w (cache bds) observations i \<and> FromCache r' ! i
           else Decisions r' ! i = None \<and> \<not> FromCache r' ! i"
      using p(6) i by simp
    show "if hit w (cache bds) observations i
        then Decisions (fill_defaults observations uis' r') ! i =
               cached_decision w (cache bds) observations i \<and>
             FromCache (fill_defaults observations uis' r') ! i
        else Decisions (fill_defaults observations uis' r') ! i =
               Some (DefaultDecision (observations ! i)) \<and>
             DefaultDecision (observations ! i) =
               [''npc_id'' \<mapsto>
                  (case (observations ! i) ''npc_id'' of None \<Rightarrow> Null | Some v \<Rightarrow> v),
                ''action'' \<mapsto> Str ''explore'',
                ''reason'' \<mapsto> Str ''Looking around...''] \<and>
             \<not> FromCache (fill_defaults observations uis' r') ! i"
      using d fc pi mem [OF i] by (simp add: DefaultDecision_def split: if_splits)
  qed
  have err: "Error (fill_defaults observations uis' r') = None" using f p(3) by simp
  have len: "length (Decisions (fill_defaults observations uis' r')) = ?n" using f p(1) by simp
  show ?thesis unfolding res using err len each by simp
qed

theorem failed_call_yields_defaults_witness:
  "[alice, bob] \<noteq> [] \<and>
   ''prompt'' \<in> set (snd (snd (GetBatchDecisions down_world warm_system [alice, bob]))) \<and>
   callLLMWithFallback down_world ''prompt'' = Inl (Failure ''all providers failed'') \<and>
   Error (fst (GetBatchDecisions down_world warm_system [alice, bob])) = None \<and>
   snd (snd (GetBatchDecisions down_world warm_system [alice, bob])) = [''prompt''] \<and>
   length (Decisions (fst (GetBatchDecisions down_world warm_system [alice, bob]))) = 2 \<and>
   hit down_world (cache warm_system) [alice, bob] 0 \<and>
   Decisions (fst (GetBatchDecisions down_world warm_system [alice, bob])) ! 0 =
     Some [''action'' \<mapsto> Str ''wait''] \<and>
   FromCache (fst (GetBatchDecisions down_world warm_system [alice, bob])) ! 0 \<and>
   \<not> hit down_world (cache warm_system) [alice, bob] 1 \<and>
   Decisions (fst (GetBatchDecisions down_world warm_system [alice, bob])) ! 1 =
     Some [''npc_id'' \<mapsto> Str ''npc_2'', ''action'' \<mapsto> Str ''explore'',
           ''reason'' \<mapsto> Str ''Looking around...''] \<and>
   \<not> FromCache (fst (GetBatchDecisions down_world warm_system [alice, bob])) ! 1"
proof -
  have h1: "[alice, bob] \<noteq> []" by simp
  have h2: "''prompt'' \<in> set (snd (snd (GetBatchDecisions down_world warm_system [alice, bob])))"
    by (simp add: down_call)
  have h3: "callLLMWithFallback down_world ''prompt'' = Inl (Failure ''all providers failed'')"
    by (simp add: down_world_def)
  note t = failed_call_yields_defaults [OF h1 h2 h3]
  have c: "cached_decision down_world (cache warm_system) [alice, bob] 0 =
      Some [''action'' \<mapsto> Str ''wait'']"
    by (simp add: cached_decision_def down_world_def warm_system_def alice_def name_key_def)
  have a0: "hit down_world (cache warm_system) [alice, bob] 0" by (rule hit_alice)
  have b1: "\<not> hit down_world (cache warm_system) [alice, bob] 1" using miss_bob by simp
  have at0: "Decisions (fst (GetBatchDecisions down_world warm_system [alice, bob])) ! 0 =
      Some [''action'' \<mapsto> Str ''wait''] \<and>
    FromCache (fst (GetBatchDecisions down_world warm_system [alice, bob])) ! 0"
    using t a0 c by auto
  have at1: "Decisions (fst (GetBatchDecisions down_world warm_system [alice, bob])) ! 1 =
      Some (DefaultDecision bob) \<and>
    DefaultDecision bob =
      [''npc_id'' \<mapsto> (case bob ''npc_id'' of None \<Rightarrow> Null | Some v \<Rightarrow> v),
       ''action'' \<mapsto> Str ''explore'', ''reason'' \<mapsto> Str ''Looking around...''] \<and>
    \<not> FromCache (fst (GetBatchDecisions down_world warm_system [alice, bob])) ! 1"
    using t b1 by auto
  have id: "bob ''npc_id'' = Some (Str ''npc_2'')" by (simp add: bob_def)
  have at1': "Decisions (fst (GetBatchDecisions down_world warm_system [alice, bob])) ! 1 =
      Some [''npc_id'' \<mapsto> Str ''npc_2'', ''action'' \<mapsto> Str ''explore'',
            ''reason'' \<mapsto> Str ''Looking around...''] \<and>
    \<not> FromCache (fst (GetBatchDecisions down_world warm_system [alice, bob])) ! 1"
    using at1 id by simp
  show ?thesis using h1 h2 h3 t a0 b1 at0 at1' by simp
qed

end
